theory Spec2Isabelle
  imports Complex_Main
begin

section \<open>Assignment.h: discrete assignments and their Cartesian product\<close>

text \<open>
  An \<open>Assignment<L>\<close> is a \<open>std::map<L, size_t>\<close>: a finite map from labels to
  value indices.  The values are \<open>size_t\<close>; they are modelled as \<open>nat\<close>, since
  the only arithmetic on them is the increment of an entry that is below a cardinality
  or zero, so the 64-bit wrap-around is never reached.
\<close>

type_synonym 'l Assignment = "'l \<rightharpoonup> nat"

type_synonym 'l DiscreteKey = "'l \<times> nat"

text \<open>\<open>values[idx]\<close> of \<open>std::map\<close>: a missing entry reads as the default value 0.\<close>

definition at_key :: "'l Assignment \<Rightarrow> 'l \<Rightarrow> nat" where
  "at_key values idx = (case values idx of None \<Rightarrow> 0 | Some v \<Rightarrow> v)"

text \<open>The first loop of \<open>CartesianProduct\<close>: \<open>values[key.first] = 0\<close> for every key.\<close>

fun init_values :: "'l DiscreteKey list \<Rightarrow> 'l Assignment \<Rightarrow> 'l Assignment" where
  "init_values [] values = values"
| "init_values (key # keys) values = init_values keys (values(fst key \<mapsto> 0))"

text \<open>
  The inner \<open>for (j = 0; j < keys.size(); j++)\<close> loop, started at index \<open>j\<close>.  It
  returns the value of \<open>j\<close> at which the loop is left, and the updated assignment.
\<close>

function increment :: "'l DiscreteKey list \<Rightarrow> nat \<Rightarrow> 'l Assignment \<Rightarrow> nat \<times> 'l Assignment" where
  "increment keys j values =
     (if j < length keys then
        (let idx = fst (keys ! j);
             values1 = values(idx \<mapsto> at_key values idx + 1)
         in if at_key values1 idx < snd (keys ! j) then (j, values1)
            else increment keys (j + 1) (values1(idx \<mapsto> 0)))
      else (j, values))"
  by pat_completeness auto
termination
  by (relation "measure (\<lambda>(keys, j, values). length keys - j)") auto

declare increment.simps [simp del]

text \<open>
  The outer \<open>while (1)\<close> loop.  It may run forever, so it is a partial function:
  \<open>None\<close> is the run that never reaches \<open>break\<close>.
\<close>

partial_function (option) enumerate_from ::
  "'l DiscreteKey list \<Rightarrow> 'l Assignment list \<Rightarrow> 'l Assignment \<Rightarrow> 'l Assignment list option" where
  "enumerate_from keys allPossValues values =
     (let allPossValues1 = allPossValues @ [values];
          (j, values1) = increment keys 0 values
      in if j = length keys then Some allPossValues1
         else enumerate_from keys allPossValues1 values1)"

definition CartesianProduct :: "'l DiscreteKey list \<Rightarrow> 'l Assignment list option" where
  "CartesianProduct keys = enumerate_from keys [] (init_values keys Map.empty)"

subsection \<open>The enumeration in closed form\<close>

text \<open>
  The inner loop read along the key list instead of by index: the number of keys that
  wrapped to zero, and the updated assignment.  \<open>increment_inc_list\<close> below relates
  it to \<open>increment\<close>.
\<close>

fun inc_list :: "'l DiscreteKey list \<Rightarrow> 'l Assignment \<Rightarrow> nat \<times> 'l Assignment" where
  "inc_list [] values = (0, values)"
| "inc_list (key # rest) values =
     (if at_key values (fst key) + 1 < snd key
      then (0, values(fst key \<mapsto> at_key values (fst key) + 1))
      else (case inc_list rest (values(fst key \<mapsto> 0)) of (n, v) \<Rightarrow> (Suc n, v)))"

text \<open>
  A key of cardinality 0 is treated by the loop like one of cardinality 1: its value is
  incremented to 1, fails the test \<open>1 < 0\<close> and wraps back to 0.
\<close>

definition effective_card :: "nat \<Rightarrow> nat" where
  "effective_card c = max 1 c"

text \<open>
  The \<open>k\<close>-th assignment of the enumeration in mixed radix: the first key holds the
  least significant digit.
\<close>

fun nth_assignment :: "'l DiscreteKey list \<Rightarrow> nat \<Rightarrow> 'l Assignment" where
  "nth_assignment [] k = Map.empty"
| "nth_assignment (key # rest) k =
     (nth_assignment rest (k div effective_card (snd key)))(fst key \<mapsto> k mod effective_card (snd key))"

text \<open>The number of assignments that the enumeration produces.\<close>

definition total_count :: "'l DiscreteKey list \<Rightarrow> nat" where
  "total_count keys = prod_list (map (effective_card \<circ> snd) keys)"

section \<open>RegularJacobianFactor.h: Jacobian factors and the structure-from-motion factor\<close>

text \<open>
  A raw \<open>double*\<close> buffer is a store from element offsets (relative to the pointer) to
  values.  Doubles are modelled as real numbers, so every statement below is about exact
  arithmetic.
\<close>

type_synonym buffer = "nat \<Rightarrow> real"

type_synonym Key = nat

type_synonym Vector = "real list"

text \<open>A dense matrix is the list of its rows.\<close>

type_synonym Matrix = "real list list"

subsection \<open>Dense vector and matrix operations\<close>

text \<open>
  The Eigen operations below are applied to operands of matching dimensions; the fixed
  sizes of \<open>VectorD\<close>, \<open>JacobianC\<close>, \<open>JacobianL\<close> and \<open>Vector2\<close> and the
  invariants of the factor classes guarantee that.  The statements about them carry the
  dimensions they need as hypotheses.
\<close>

text \<open>\<open>zero(n)\<close> and \<open>Matrix::Zero()\<close> for a fixed shape.\<close>

definition zero_vec :: "nat \<Rightarrow> Vector" where
  "zero_vec n = replicate n 0"

definition Zero :: "nat \<Rightarrow> nat \<Rightarrow> Matrix" where
  "Zero m n = replicate m (replicate n 0)"

definition dot :: "Vector \<Rightarrow> Vector \<Rightarrow> real" where
  "dot u v = sum_list (map2 (*) u v)"

definition squaredNorm :: "Vector \<Rightarrow> real" where
  "squaredNorm v = sum_list (map (\<lambda>a. a * a) v)"

text \<open>\<open>A.col(k)\<close>\<close>

definition col :: "Matrix \<Rightarrow> nat \<Rightarrow> Vector" where
  "col A k = map (\<lambda>row. row ! k) A"

text \<open>\<open>A * v\<close>\<close>

definition times_vec :: "Matrix \<Rightarrow> Vector \<Rightarrow> Vector" where
  "times_vec A v = map (\<lambda>row. dot row v) A"

text \<open>\<open>A.transpose() * v\<close> for a matrix with \<open>n\<close> columns\<close>

definition transpose_times_vec :: "nat \<Rightarrow> Matrix \<Rightarrow> Vector \<Rightarrow> Vector" where
  "transpose_times_vec n A v = map (\<lambda>k. dot (col A k) v) [0..<n]"

text \<open>Coefficient \<open>(r, c)\<close> of the product \<open>A.transpose() * B\<close>\<close>

definition transpose_times :: "Matrix \<Rightarrow> Matrix \<Rightarrow> nat \<Rightarrow> nat \<Rightarrow> real" where
  "transpose_times A B r c = dot (col A r) (col B c)"

text \<open>\<open>u += v\<close>, \<open>v *= alpha\<close> and unary minus on vectors\<close>

definition plus_vec :: "Vector \<Rightarrow> Vector \<Rightarrow> Vector" where
  "plus_vec u v = map2 (+) u v"

definition scale_vec :: "real \<Rightarrow> Vector \<Rightarrow> Vector" where
  "scale_vec alpha v = map ((*) alpha) v"

definition neg_vec :: "Vector \<Rightarrow> Vector" where
  "neg_vec v = map uminus v"

text \<open>
  \<open>Eigen::Block<const Matrix, R, C>(M, r0, c0)\<close>: the \<open>R \<times> C\<close> block of \<open>M\<close> whose top
  left corner is at \<open>(r0, c0)\<close>.
\<close>

definition Block :: "nat \<Rightarrow> nat \<Rightarrow> Matrix \<Rightarrow> nat \<Rightarrow> nat \<Rightarrow> Matrix" where
  "Block R C M r0 c0 = map (\<lambda>row. take C (drop c0 row)) (take R (drop r0 M))"

subsection \<open>Raw buffers\<close>

text \<open>
  The caller owns the buffers and makes them long enough; the store has no end.
  \<open>ConstDMap(x + off)\<close> is the vector of the \<open>D\<close> doubles that start at \<open>x + off\<close>.
\<close>

definition ConstDMap :: "nat \<Rightarrow> buffer \<Rightarrow> nat \<Rightarrow> Vector" where
  "ConstDMap D x off = map (\<lambda>i. x (off + i)) [0..<D]"

text \<open>\<open>DMap(y + off) += v\<close>: adds \<open>v\<close> to the \<open>D\<close> doubles that start at \<open>y + off\<close>.\<close>

definition DMap_add :: "nat \<Rightarrow> buffer \<Rightarrow> nat \<Rightarrow> Vector \<Rightarrow> buffer" where
  "DMap_add D y off v = (\<lambda>i. if off \<le> i \<and> i < off + D then y i + v ! (i - off) else y i)"

subsection \<open>Noise models\<close>

text \<open>
  Modelled from the spec: the noise model classes (\<open>gtsam/linear/NoiseModel.h\<close>) are
  not among the sources.  The spec names three variants.  \<open>Unit\<close> whitens by the
  identity.  \<open>Diagonal\<close> holds the per-component scale factors (the reciprocal standard
  deviations).  \<open>Constrained\<close> holds the standard deviations, some of which are zero;
  a component of zero variance has no finite scale factor and is left as it is.
\<close>

datatype NoiseModel = Unit | Diagonal "real list" | Constrained "real list"

text \<open>Modelled from the spec: \<open>isUnit()\<close> holds of the unit variant only.\<close>

fun isUnit :: "NoiseModel \<Rightarrow> bool" where
  "isUnit Unit = True"
| "isUnit (Diagonal invsigmas) = False"
| "isUnit (Constrained sigmas) = False"

text \<open>Modelled from the spec: \<open>isConstrained()\<close> holds of the constrained variant only.\<close>

fun isConstrained :: "NoiseModel \<Rightarrow> bool" where
  "isConstrained Unit = False"
| "isConstrained (Diagonal invsigmas) = False"
| "isConstrained (Constrained sigmas) = True"

text \<open>
  Modelled from the spec: \<open>unit()\<close> of a constrained model strips the scale and keeps
  the equality-constraint structure, the zeros.
\<close>

definition unit :: "real list \<Rightarrow> NoiseModel" where
  "unit sigmas = Constrained (map (\<lambda>s. if s = 0 then 0 else 1) sigmas)"

text \<open>
  Modelled from the spec: the scale factor of each component; a component of zero
  variance keeps its value.
\<close>

fun scale_factors :: "NoiseModel \<Rightarrow> real list" where
  "scale_factors (Diagonal invsigmas) = invsigmas"
| "scale_factors (Constrained sigmas) = map (\<lambda>s. if s = 0 then 1 else 1 / s) sigmas"
| "scale_factors Unit = []"

text \<open>
  Modelled from the spec: the invariant of section 3, that the dimension of the model is
  the residual dimension.  The unit variant is kept without a dimension.
\<close>

fun dim_is :: "NoiseModel \<Rightarrow> nat \<Rightarrow> bool" where
  "dim_is Unit n = True"
| "dim_is (Diagonal invsigmas) n = (length invsigmas = n)"
| "dim_is (Constrained sigmas) n = (length sigmas = n)"

text \<open>
  Modelled from the spec: \<open>whiten(v)\<close> and \<open>whitenInPlace(v)\<close> scale the components of
  a vector; for a unit model whitening is the identity.
\<close>

definition whiten :: "NoiseModel \<Rightarrow> Vector \<Rightarrow> Vector" where
  "whiten model v = (if isUnit model then v else map2 (*) (scale_factors model) v)"

text \<open>Modelled from the spec: \<open>Whiten(H)\<close> scales the rows of a matrix.\<close>

definition Whiten :: "NoiseModel \<Rightarrow> Matrix \<Rightarrow> Matrix" where
  "Whiten model H =
     (if isUnit model then H
      else map2 (\<lambda>w row. map ((*) w) row) (scale_factors model) H)"

subsection \<open>Jacobian factors\<close>

text \<open>
  Modelled from the spec: \<open>VerticalBlockMatrix\<close> is not among the sources.  It holds
  the blocks of a factor and its residual side by side: one dense matrix and the column
  offsets of its blocks.
\<close>

record VerticalBlockMatrix =
  matrix :: Matrix
  variableColOffsets :: "nat list"

text \<open>Modelled from the spec: \<open>Ab_.rows()\<close> is the residual dimension.\<close>

definition rows :: "VerticalBlockMatrix \<Rightarrow> nat" where
  "rows Ab = length (matrix Ab)"

text \<open>
  Modelled from the spec: \<open>Ab_(j)\<close> is block \<open>j\<close> over all rows; the last block is the
  column \<open>b\<close>.
\<close>

definition block :: "VerticalBlockMatrix \<Rightarrow> nat \<Rightarrow> Matrix" where
  "block Ab j =
     map (\<lambda>row. take (variableColOffsets Ab ! (j + 1) - variableColOffsets Ab ! j)
                     (drop (variableColOffsets Ab ! j) row))
         (matrix Ab)"

text \<open>
  The data of \<open>JacobianFactor\<close> that the two derived classes read.  The members
  \<open>keys_\<close>, \<open>Ab_\<close> and \<open>model_\<close> are written with a prime in place of the trailing
  underscore.
\<close>

record JacobianFactor =
  keys' :: "Key list"
  Ab' :: VerticalBlockMatrix
  model' :: "NoiseModel option"

text \<open>\<open>size()\<close> and \<open>empty()\<close> of a factor count its keys.\<close>

definition size_keys :: "JacobianFactor \<Rightarrow> nat" where
  "size_keys f = length (keys' f)"

definition empty_keys :: "JacobianFactor \<Rightarrow> bool" where
  "empty_keys f = (keys' f = [])"

subsection \<open>\<open>RegularJacobianFactor<D>\<close>\<close>

text \<open>
  \<open>hessianDiagonal(double* d)\<close>: the loop over \<open>j\<close> with the inner loop over \<open>k\<close>
  that fills \<open>dj\<close>, followed by \<open>DMap(d + D * j) += dj\<close>.
\<close>

definition hessianDiagonal_dj :: "nat \<Rightarrow> JacobianFactor \<Rightarrow> nat \<Rightarrow> Vector" where
  "hessianDiagonal_dj D f j = map (\<lambda>k. squaredNorm (col (block (Ab' f) j) k)) [0..<D]"

definition hessianDiagonal :: "nat \<Rightarrow> JacobianFactor \<Rightarrow> buffer \<Rightarrow> buffer" where
  "hessianDiagonal D f d =
     fold (\<lambda>j d. DMap_add D d (D * j) (hessianDiagonal_dj D f j)) [0..<size_keys f] d"

text \<open>
  \<open>multiplyHessianAdd(double alpha, const double* x, double* y)\<close>.  The first loop
  accumulates \<open>Ax\<close>, the second one scatters into \<open>y\<close>.
\<close>

definition multiplyHessianAdd_Ax :: "nat \<Rightarrow> JacobianFactor \<Rightarrow> buffer \<Rightarrow> Vector" where
  "multiplyHessianAdd_Ax D f x =
     fold (\<lambda>pos Ax. plus_vec Ax (times_vec (block (Ab' f) pos) (ConstDMap D x (D * keys' f ! pos))))
          [0..<size_keys f] (zero_vec (rows (Ab' f)))"

definition multiplyHessianAdd :: "nat \<Rightarrow> JacobianFactor \<Rightarrow> real \<Rightarrow> buffer \<Rightarrow> buffer \<Rightarrow> buffer" where
  "multiplyHessianAdd D f alpha x y =
     (if empty_keys f then y
      else
        let Ax = multiplyHessianAdd_Ax D f x;
            Ax = (case model' f of None \<Rightarrow> Ax | Some m \<Rightarrow> whiten m (whiten m Ax));
            Ax = scale_vec alpha Ax
        in fold (\<lambda>pos y. DMap_add D y (D * keys' f ! pos)
                              (transpose_times_vec D (block (Ab' f) pos) Ax))
                [0..<size_keys f] y)"

text \<open>
  The class invariant of \<open>RegularJacobianFactor<D>\<close>: every variable block has \<open>D\<close>
  columns, since the blocks are multiplied with fixed-size maps of \<open>D\<close> doubles.
\<close>

definition blocks_of_width :: "nat \<Rightarrow> JacobianFactor \<Rightarrow> bool" where
  "blocks_of_width D f =
     list_all (\<lambda>pos. list_all (\<lambda>row. length row = D) (block (Ab' f) pos)) [0..<size_keys f]"

text \<open>
  The value that the spec gives to \<open>Ax\<close>, written entry by entry: entry \<open>r\<close> is the sum
  over the variables of row \<open>r\<close> of \<open>A_i\<close> times the \<open>D\<close>-segment of \<open>x\<close> at offset \<open>D\<close>
  times the key.
\<close>

definition sum_Ax :: "nat \<Rightarrow> JacobianFactor \<Rightarrow> buffer \<Rightarrow> Vector" where
  "sum_Ax D f x =
     map (\<lambda>r. \<Sum>pos<length (keys' f). \<Sum>c<D.
               block (Ab' f) pos ! r ! c * x (D * keys' f ! pos + c))
         [0..<rows (Ab' f)]"

text \<open>\<open>gradientAtZero(double* d)\<close> has an empty body.\<close>

definition gradientAtZero :: "JacobianFactor \<Rightarrow> buffer \<Rightarrow> buffer" where
  "gradientAtZero f d = d"

subsection \<open>The information accumulator\<close>

text \<open>
  Modelled from the spec: \<open>SymmetricBlockMatrix\<close> is not among the sources.  It is the
  accumulator of section 3, a block matrix over slots; here it is a store of doubles
  addressed by block row, block column, and row and column inside the block.  Of a
  diagonal block only the upper triangle is written.
\<close>

record SymmetricBlockMatrix =
  nBlocks :: nat
  coeff :: "nat \<Rightarrow> nat \<Rightarrow> nat \<Rightarrow> nat \<Rightarrow> real"

text \<open>
  Modelled from the spec: \<open>(*info)(i, i).selfadjointView().rankUpdate(A.transpose())\<close>
  for \<open>A\<close> with \<open>n\<close> columns is the symmetric rank update of section 4.3.  It adds
  \<open>A.transpose() * A\<close> to the upper triangle of block \<open>(i, i)\<close>.
\<close>

definition rankUpdate :: "SymmetricBlockMatrix \<Rightarrow> nat \<Rightarrow> nat \<Rightarrow> Matrix \<Rightarrow> SymmetricBlockMatrix" where
  "rankUpdate info i n A =
     info\<lparr>coeff := (\<lambda>i' j' r c.
        if i' = i \<and> j' = i \<and> r \<le> c \<and> c < n
        then coeff info i' j' r c + transpose_times A A r c
        else coeff info i' j' r c)\<rparr>"

text \<open>
  Modelled from the spec: \<open>(*info)(i, j).knownOffDiagonal() += M\<close> adds the \<open>m \<times> n\<close>
  product \<open>M\<close>, given by its coefficients, to block \<open>(i, j)\<close>.
\<close>

definition knownOffDiagonal_add ::
  "SymmetricBlockMatrix \<Rightarrow> nat \<Rightarrow> nat \<Rightarrow> nat \<Rightarrow> nat \<Rightarrow> (nat \<Rightarrow> nat \<Rightarrow> real) \<Rightarrow> SymmetricBlockMatrix" where
  "knownOffDiagonal_add info i j m n M =
     info\<lparr>coeff := (\<lambda>i' j' r c.
        if i' = i \<and> j' = j \<and> r < m \<and> c < n
        then coeff info i' j' r c + M r c
        else coeff info i' j' r c)\<rparr>"

text \<open>Modelled from the spec: \<open>(*info)(i, j)(r, c) = v\<close> stores one coefficient.\<close>

definition coeff_assign ::
  "SymmetricBlockMatrix \<Rightarrow> nat \<Rightarrow> nat \<Rightarrow> nat \<Rightarrow> nat \<Rightarrow> real \<Rightarrow> SymmetricBlockMatrix" where
  "coeff_assign info i j r c v =
     info\<lparr>coeff := (\<lambda>i' j' r' c'.
        if i' = i \<and> j' = j \<and> r' = r \<and> c' = c then v else coeff info i' j' r' c')\<rparr>"

text \<open>
  Modelled from the spec: \<open>Slot\<close> is declared in \<open>GaussianFactor.h\<close>, which is not
  among the sources.  The slot of a key is its position in \<open>infoKeys\<close>.
\<close>

definition Slot :: "Key list \<Rightarrow> Key \<Rightarrow> nat" where
  "Slot infoKeys key = length (takeWhile (\<lambda>k. k \<noteq> key) infoKeys)"

subsection \<open>\<open>GeneralSFMFactor::BinaryJacobianFactor\<close>\<close>

datatype exception = invalid_argument string | ValuesKeyDoesNotExist Key

text \<open>
  Modelled from the spec: the constructor \<open>JacobianFactor(key1, A1, key2, A2, b, model)\<close>
  is not among the sources.  It stores the two blocks and the residual side by side,
  row by row.  \<open>DimC\<close> and \<open>DimL\<close> are the widths of \<open>JacobianC\<close> and \<open>JacobianL\<close>.
\<close>

definition BinaryJacobianFactor ::
  "nat \<Rightarrow> nat \<Rightarrow> Key \<Rightarrow> Matrix \<Rightarrow> Key \<Rightarrow> Matrix \<Rightarrow> Vector \<Rightarrow> NoiseModel option \<Rightarrow> JacobianFactor" where
  "BinaryJacobianFactor DimC DimL key1 A1 key2 A2 b model =
     \<lparr>keys' = [key1, key2],
      Ab' = \<lparr>matrix = map2 (\<lambda>(row1, row2) bi. row1 @ row2 @ [bi]) (zip A1 A2) b,
             variableColOffsets = [0, DimC, DimC + DimL, DimC + DimL + 1]\<rparr>,
      model' = model\<rparr>"

text \<open>
  Modelled from the spec: \<open>JacobianFactor::whiten\<close> is not among the sources.  It
  whitens every row of the augmented matrix (the blocks and \<open>b\<close> alike) and returns a
  factor without noise model (section 4.3, step 1).
\<close>

definition whiten_factor :: "JacobianFactor \<Rightarrow> JacobianFactor" where
  "whiten_factor f =
     (case model' f of
        None \<Rightarrow> f
      | Some m \<Rightarrow> f\<lparr>Ab' := (Ab' f)\<lparr>matrix := Whiten m (matrix (Ab' f))\<rparr>, model' := None\<rparr>)"

text \<open>Modelled from the spec: the number of columns of block \<open>j\<close>.\<close>

definition block_width :: "VerticalBlockMatrix \<Rightarrow> nat \<Rightarrow> nat" where
  "block_width Ab j = variableColOffsets Ab ! (j + 1) - variableColOffsets Ab ! j"

text \<open>
  Modelled from the spec: step 2 of section 4.3 for one pair \<open>i \<le> j\<close>.  \<open>A_i\<^sup>T A_j\<close>
  is added to block \<open>(s_i, s_j)\<close>, as a symmetric rank update when \<open>i = j\<close>.
\<close>

definition add_pair ::
  "JacobianFactor \<Rightarrow> Key list \<Rightarrow> nat \<Rightarrow> nat \<Rightarrow> SymmetricBlockMatrix \<Rightarrow> SymmetricBlockMatrix" where
  "add_pair f infoKeys i j info =
     (if i = j
      then rankUpdate info (Slot infoKeys (keys' f ! i)) (block_width (Ab' f) i) (block (Ab' f) i)
      else knownOffDiagonal_add info (Slot infoKeys (keys' f ! i)) (Slot infoKeys (keys' f ! j))
             (block_width (Ab' f) i) (block_width (Ab' f) j)
             (transpose_times (block (Ab' f) i) (block (Ab' f) j)))"

text \<open>
  Modelled from the spec: step 3 of section 4.3 for one \<open>i\<close>.  \<open>A_i\<^sup>T b\<close> is added to
  block \<open>(s_i, s_B)\<close>.
\<close>

definition add_rhs ::
  "JacobianFactor \<Rightarrow> Key list \<Rightarrow> nat \<Rightarrow> SymmetricBlockMatrix \<Rightarrow> SymmetricBlockMatrix" where
  "add_rhs f infoKeys i info =
     knownOffDiagonal_add info (Slot infoKeys (keys' f ! i)) (nBlocks info - 1)
       (block_width (Ab' f) i) 1
       (transpose_times (block (Ab' f) i) (block (Ab' f) (size_keys f)))"

text \<open>
  Modelled from the spec: steps 2 to 4 of section 4.3 for a factor without noise model;
  step 4 adds \<open>b\<^sup>T b\<close> to block \<open>(s_B, s_B)\<close>.
\<close>

definition JacobianFactor_accumulate ::
  "JacobianFactor \<Rightarrow> Key list \<Rightarrow> SymmetricBlockMatrix \<Rightarrow> SymmetricBlockMatrix" where
  "JacobianFactor_accumulate f infoKeys info =
     (let n = size_keys f;
          info = fold (\<lambda>i. fold (add_pair f infoKeys i) [i..<n]) [0..<n] info;
          info = fold (add_rhs f infoKeys) [0..<n] info;
          b = block (Ab' f) n
      in knownOffDiagonal_add info (nBlocks info - 1) (nBlocks info - 1) 1 1 (transpose_times b b))"

text \<open>
  Modelled from the spec: \<open>JacobianFactor::updateHessian\<close> is not among the sources.
  Step 1 of section 4.3 whitens a factor with a non-unit model and reports a constrained
  one; steps 2 to 4 follow.
\<close>

definition JacobianFactor_updateHessian ::
  "JacobianFactor \<Rightarrow> Key list \<Rightarrow> SymmetricBlockMatrix \<Rightarrow> exception option \<times> SymmetricBlockMatrix" where
  "JacobianFactor_updateHessian f infoKeys info =
     (case model' f of
        None \<Rightarrow> (None, JacobianFactor_accumulate f infoKeys info)
      | Some m \<Rightarrow>
          if isUnit m then (None, JacobianFactor_accumulate f infoKeys info)
          else if isConstrained m
          then (Some (invalid_argument ''JacobianFactor::updateHessian: cannot update information with constrained noise model''), info)
          else (None, JacobianFactor_accumulate (whiten_factor f) infoKeys info))"

text \<open>
  \<open>BinaryJacobianFactor::updateHessian\<close>.  The result is the exception thrown, if any,
  and the accumulator as the call leaves it.  A factor built by the constructor has two
  keys, \<open>keys_.front()\<close> and \<open>keys_.back()\<close>, and the accumulator has at least the
  bias block, so that \<open>nBlocks() - 1\<close> is its index.
\<close>

definition updateHessian ::
  "nat \<Rightarrow> nat \<Rightarrow> JacobianFactor \<Rightarrow> Key list \<Rightarrow> SymmetricBlockMatrix \<Rightarrow> exception option \<times> SymmetricBlockMatrix" where
  "updateHessian DimC DimL f infoKeys info =
     (if model' f \<noteq> None \<and> \<not> isUnit (the (model' f)) then
        if isConstrained (the (model' f))
        then (Some (invalid_argument ''BinaryJacobianFactor::updateHessian: cannot update information with constrained noise model''), info)
        else JacobianFactor_updateHessian (whiten_factor f) infoKeys info
      else
        let slot1 = Slot infoKeys (hd (keys' f));
            slot2 = Slot infoKeys (last (keys' f));
            slotB = nBlocks info - 1;
            Ab = matrix (Ab' f);
            A1 = Block 2 DimC Ab 0 0;
            A2 = Block 2 DimL Ab 0 DimC;
            b = Block 2 1 Ab 0 (DimC + DimL);
            info = rankUpdate info slot1 DimC A1;
            info = knownOffDiagonal_add info slot1 slot2 DimC DimL (transpose_times A1 A2);
            info = knownOffDiagonal_add info slot1 slotB DimC 1 (transpose_times A1 b);
            info = rankUpdate info slot2 DimL A2;
            info = knownOffDiagonal_add info slot2 slotB DimL 1 (transpose_times A2 b);
            info = coeff_assign info slotB slotB 0 0 (transpose_times b b 0 0)
        in (None, info))"

subsection \<open>\<open>GeneralSFMFactor<CAMERA, LANDMARK>\<close>\<close>

type_synonym Point2 = "real \<times> real"

definition minus_Point2 :: "Point2 \<Rightarrow> Point2 \<Rightarrow> Point2" where
  "minus_Point2 p q = (fst p - fst q, snd p - snd q)"

definition vector :: "Point2 \<Rightarrow> Vector" where
  "vector p = [fst p, snd p]"

record GeneralSFMFactor =
  measured :: Point2
  key1 :: Key
  key2 :: Key
  noiseModel :: "NoiseModel option"

text \<open>
  The camera type and the landmark type are template parameters.  Their method
  \<open>project2\<close> is a parameter of the model: \<open>None\<close> is a thrown
  \<open>CheiralityException\<close>, \<open>Some (p, H1, H2)\<close> the projected point with the two
  Jacobians.
\<close>

type_synonym ('c, 'l) project2 = "'c \<Rightarrow> 'l \<Rightarrow> (Point2 \<times> Matrix \<times> Matrix) option"

text \<open>
  \<open>evaluateError\<close>.  The optional arguments \<open>H1\<close> and \<open>H2\<close> are two flags that say
  whether the caller passed them; a Jacobian that was asked for is returned.
\<close>

definition evaluateError ::
  "nat \<Rightarrow> nat \<Rightarrow> ('c, 'l) project2 \<Rightarrow> GeneralSFMFactor \<Rightarrow> 'c \<Rightarrow> 'l \<Rightarrow> bool \<Rightarrow> bool \<Rightarrow>
     Vector \<times> Matrix option \<times> Matrix option" where
  "evaluateError DimC DimL project2 factor camera point H1 H2 =
     (case project2 camera point of
        Some (p, J1, J2) \<Rightarrow>
          (vector (minus_Point2 p (measured factor)),
           if H1 then Some J1 else None, if H2 then Some J2 else None)
      | None \<Rightarrow>
          (zero_vec 2,
           if H1 then Some (Zero 2 DimC) else None, if H2 then Some (Zero 2 DimL) else None))"

text \<open>
  Modelled from the spec: \<open>Values\<close> is not among the sources.  It holds the current
  value of each variable; \<open>at\<close> throws for a key that holds no value of the type asked
  for, and \<open>linearize\<close> does not catch that exception.
\<close>

datatype ('c, 'l) Value = CameraValue 'c | LandmarkValue 'l

text \<open>Modelled from the spec: \<open>values.at<CAMERA>(key)\<close> and \<open>values.at<LANDMARK>(key)\<close>.\<close>

type_synonym ('c, 'l) Values = "Key \<Rightarrow> ('c, 'l) Value option"

definition at_CAMERA :: "('c, 'l) Values \<Rightarrow> Key \<Rightarrow> exception + 'c" where
  "at_CAMERA vals k =
     (case vals k of Some (CameraValue c) \<Rightarrow> Inr c | _ \<Rightarrow> Inl (ValuesKeyDoesNotExist k))"

definition at_LANDMARK :: "('c, 'l) Values \<Rightarrow> Key \<Rightarrow> exception + 'l" where
  "at_LANDMARK vals k =
     (case vals k of Some (LandmarkValue l) \<Rightarrow> Inr l | _ \<Rightarrow> Inl (ValuesKeyDoesNotExist k))"

text \<open>
  \<open>linearize\<close>.  \<open>active\<close> is the virtual method of the base class, a parameter
  here.  The result is the exception that escapes, or the factor (\<open>None\<close> for the null
  pointer returned when the factor is not active).
\<close>

definition linearize ::
  "nat \<Rightarrow> nat \<Rightarrow> ('c, 'l) project2 \<Rightarrow> (('c, 'l) Values \<Rightarrow> bool) \<Rightarrow> GeneralSFMFactor \<Rightarrow>
     ('c, 'l) Values \<Rightarrow> exception + JacobianFactor option" where
  "linearize DimC DimL project2 active factor vals =
     (if \<not> active vals then Inr None
      else
       (case at_CAMERA vals (key1 factor) of
          Inl e \<Rightarrow> Inl e
        | Inr camera \<Rightarrow>
           (case at_LANDMARK vals (key2 factor) of
              Inl e \<Rightarrow> Inl e
            | Inr point \<Rightarrow>
               (let (H1, H2, b) =
                      (case project2 camera point of
                         Some (p, J1, J2) \<Rightarrow>
                           (J1, J2, neg_vec (vector (minus_Point2 p (measured factor))))
                       | None \<Rightarrow> (Zero 2 DimC, Zero 2 DimL, zero_vec 2));
                    (H1, H2, b) =
                      (if noiseModel factor \<noteq> None \<and> \<not> isUnit (the (noiseModel factor))
                       then (Whiten (the (noiseModel factor)) H1,
                             Whiten (the (noiseModel factor)) H2,
                             whiten (the (noiseModel factor)) b)
                       else (H1, H2, b))
                in (case noiseModel factor of
                      Some (Constrained sigmas) \<Rightarrow>
                        Inr (Some (BinaryJacobianFactor DimC DimL (key1 factor) H1
                                     (key2 factor) H2 b (Some (unit sigmas))))
                    | _ \<Rightarrow>
                        Inr (Some (BinaryJacobianFactor DimC DimL (key1 factor) H1
                                     (key2 factor) H2 b None)))))))"

subsection \<open>Assembling the information matrix and the matrix-free product\<close>












section \<open>Properties of \<open>CartesianProduct\<close>\<close>

lemma at_key_upd: "at_key (m(l \<mapsto> v)) k = (if k = l then v else at_key m k)"
  by (simp add: at_key_def)

lemma increment_inc_list:
  "j \<le> length keys \<Longrightarrow>
   increment keys j vals = (case inc_list (drop j keys) vals of (n, v) \<Rightarrow> (j + n, v))"
proof (induction keys j vals rule: increment.induct)
  case (1 keys j vals)
  show ?case
  proof (cases "j < length keys")
    case True
    then have d: "drop j keys = keys ! j # drop (Suc j) keys"
      by (simp add: Cons_nth_drop_Suc)
    let ?idx = "fst (keys ! j)"
    show ?thesis
    proof (cases "at_key vals ?idx + 1 < snd (keys ! j)")
      case lt: True
      with True show ?thesis
        by (subst increment.simps) (simp add: d at_key_upd Let_def)
    next
      case ge: False
      obtain n v where r: "inc_list (drop (Suc j) keys) (vals(?idx \<mapsto> 0)) = (n, v)"
        by (cases "inc_list (drop (Suc j) keys) (vals(?idx \<mapsto> 0))")
      have ge': "\<not> at_key (vals(?idx \<mapsto> at_key vals ?idx + 1)) ?idx < snd (keys ! j)"
        using ge by (simp add: at_key_upd)
      have "increment keys (j + 1) ((vals(?idx \<mapsto> at_key vals ?idx + 1))(?idx \<mapsto> 0))
            = (case inc_list (drop (j + 1) keys)
                      ((vals(?idx \<mapsto> at_key vals ?idx + 1))(?idx \<mapsto> 0)) of
                 (n, v) \<Rightarrow> (j + 1 + n, v))"
        using True by (intro "1.IH" [OF True refl refl ge']) simp
      then have "increment keys (j + 1) (vals(?idx \<mapsto> 0)) = (j + 1 + n, v)"
        by (simp add: r)
      moreover have "increment keys j vals = increment keys (j + 1) (vals(?idx \<mapsto> 0))"
        using True ge by (subst increment.simps) (simp add: at_key_upd Let_def)
      ultimately show ?thesis
        using ge by (simp add: d r)
    qed
  next
    case False
    with "1.prems" show ?thesis
      by (subst increment.simps) simp
  qed
qed

lemma inc_list_frame:
  "l \<notin> fst ` set keys \<Longrightarrow>
   inc_list keys (m(l \<mapsto> v)) = (case inc_list keys m of (n, m') \<Rightarrow> (n, m'(l \<mapsto> v)))"
proof (induction keys arbitrary: m)
  case Nil
  then show ?case by simp
next
  case (Cons key rest)
  then have ne: "fst key \<noteq> l" and nin: "l \<notin> fst ` set rest" by auto
  have tw: "\<And>w. m(l \<mapsto> v, fst key \<mapsto> w) = m(fst key \<mapsto> w, l \<mapsto> v)"
    using ne by (simp add: fun_upd_twist)
  have ak: "at_key (m(l \<mapsto> v)) (fst key) = at_key m (fst key)"
    using ne by (simp add: at_key_upd)
  show ?case
  proof (cases "at_key m (fst key) + 1 < snd key")
    case True
    then show ?thesis
      by (simp only: inc_list.simps ak if_True prod.case tw)
  next
    case False
    obtain n m' where r: "inc_list rest (m(fst key \<mapsto> 0)) = (n, m')"
      by (cases "inc_list rest (m(fst key \<mapsto> 0))")
    have "inc_list rest (m(fst key \<mapsto> 0, l \<mapsto> v)) = (n, m'(l \<mapsto> v))"
      using Cons.IH [OF nin, of "m(fst key \<mapsto> 0)"] by (simp only: r prod.case)
    with False show ?thesis
      by (simp only: inc_list.simps ak if_False prod.case tw r)
  qed
qed

lemma inc_list_le: "fst (inc_list keys m) \<le> length keys"
proof (induction keys arbitrary: m)
  case Nil
  then show ?case by simp
next
  case (Cons key rest)
  obtain n v where r: "inc_list rest (m(fst key \<mapsto> 0)) = (n, v)"
    by (cases "inc_list rest (m(fst key \<mapsto> 0))")
  have "n \<le> length rest"
    using Cons.IH [of "m(fst key \<mapsto> 0)"] unfolding r by simp
  then show ?case
    by (simp add: r)
qed

lemma effective_card_pos: "0 < effective_card c"
  by (simp add: effective_card_def)

lemma total_count_pos: "0 < total_count keys"
  by (induction keys) (simp_all add: total_count_def effective_card_pos)

lemma total_count_Cons: "total_count (key # rest) = effective_card (snd key) * total_count rest"
  by (simp add: total_count_def)

lemma lt_eff: "d < effective_card c \<Longrightarrow> d + 1 < c \<longleftrightarrow> d + 1 < effective_card c"
  by (auto simp: effective_card_def max_def)

lemma inc_list_nth_assignment:
  "distinct (map fst keys) \<Longrightarrow> k < total_count keys \<Longrightarrow>
   (k + 1 < total_count keys \<longrightarrow>
      fst (inc_list keys (nth_assignment keys k)) < length keys \<and>
      snd (inc_list keys (nth_assignment keys k)) = nth_assignment keys (k + 1)) \<and>
   (k + 1 = total_count keys \<longrightarrow> fst (inc_list keys (nth_assignment keys k)) = length keys)"
proof (induction keys arbitrary: k)
  case Nil
  then show ?case by (simp add: total_count_def)
next
  case (Cons key rest)
  let ?c = "effective_card (snd key)"
  let ?l = "fst key"
  let ?m = "nth_assignment rest (k div ?c)"
  have cpos: "0 < ?c" by (rule effective_card_pos)
  have nin: "?l \<notin> fst ` set rest" and dist: "distinct (map fst rest)"
    using Cons.prems(1) by auto
  have kdiv: "k div ?c < total_count rest"
    using Cons.prems(2) cpos by (simp add: total_count_Cons less_mult_imp_div_less mult.commute)
  have ak: "at_key (nth_assignment (key # rest) k) ?l = k mod ?c"
    by (simp add: at_key_upd)
  have dlt: "k mod ?c < ?c" using cpos by simp
  show ?case
  proof (cases "k mod ?c + 1 < ?c")
    case True
    then have lt: "at_key (nth_assignment (key # rest) k) ?l + 1 < snd key"
      using lt_eff [OF dlt] by (simp add: at_key_upd)
    have m1: "Suc k mod ?c = Suc (k mod ?c)"
      using True by (simp add: mod_Suc)
    have d1: "Suc k div ?c = k div ?c"
      using True by (simp add: div_Suc mod_Suc)
    have r: "inc_list (key # rest) (nth_assignment (key # rest) k) =
             (0, (nth_assignment (key # rest) k)(?l \<mapsto> k mod ?c + 1))"
      using lt by (simp add: ak del: nth_assignment.simps)
    have ne: "k + 1 \<noteq> total_count (key # rest)"
    proof
      assume "k + 1 = total_count (key # rest)"
      then have "Suc k mod ?c = 0" by (simp add: total_count_Cons)
      with m1 show False by simp
    qed
    have "k + 1 < total_count (key # rest)"
      using Cons.prems(2) ne by simp
    show ?thesis
      unfolding r using ne by (simp add: m1 d1)
  next
    case False
    then have wrap: "k mod ?c + 1 = ?c" using dlt by simp
    have ge: "\<not> at_key (nth_assignment (key # rest) k) ?l + 1 < snd key"
      using False lt_eff [OF dlt] by (simp add: at_key_upd)
    have m1: "Suc k mod ?c = 0"
      using wrap by (simp add: mod_Suc)
    have d1: "Suc k div ?c = Suc (k div ?c)"
      using wrap by (simp add: div_Suc mod_Suc)
    obtain n v where r0: "inc_list rest ?m = (n, v)"
      by (cases "inc_list rest ?m")
    have fr: "inc_list rest (?m(?l \<mapsto> 0)) = (n, v(?l \<mapsto> 0))"
      using inc_list_frame [OF nin, of ?m 0] by (simp only: r0 prod.case)
    have r: "inc_list (key # rest) (nth_assignment (key # rest) k) = (Suc n, v(?l \<mapsto> 0))"
      using ge fr by (simp add: at_key_upd)
    have tot: "k + 1 = total_count (key # rest) \<longleftrightarrow> k div ?c + 1 = total_count rest"
    proof
      assume "k + 1 = total_count (key # rest)"
      then have "Suc k div ?c = total_count rest"
        using cpos by (simp add: total_count_Cons)
      then show "k div ?c + 1 = total_count rest" by (simp add: d1)
    next
      assume a: "k div ?c + 1 = total_count rest"
      have "Suc k = ?c * (Suc k div ?c) + Suc k mod ?c"
        by (rule mult_div_mod_eq [symmetric])
      also have "\<dots> = ?c * total_count rest"
        unfolding m1 d1 using a by simp
      finally show "k + 1 = total_count (key # rest)" by (simp add: total_count_Cons)
    qed
    note IH = Cons.IH [OF dist kdiv, unfolded r0, simplified]
    show ?thesis
    proof (cases "k div ?c + 1 = total_count rest")
      case True
      with IH have "n = length rest" by simp
      with True tot show ?thesis unfolding r by simp
    next
      case ne: False
      then have lt: "k div ?c + 1 < total_count rest" using kdiv by simp
      with IH have "n < length rest" and "v = nth_assignment rest (k div ?c + 1)"
        by simp_all
      then show ?thesis
        unfolding r using ne tot by (simp add: m1 d1)
    qed
  qed
qed


lemma increment_0: "increment keys 0 vals = inc_list keys vals"
  using increment_inc_list [of 0 keys vals] by (simp split: prod.splits)

lemma enumerate_from_run:
  "distinct (map fst keys) \<Longrightarrow> k < total_count keys \<Longrightarrow>
   enumerate_from keys acc (nth_assignment keys k) =
     Some (acc @ map (nth_assignment keys) [k..<total_count keys])"
proof (induction "total_count keys - k" arbitrary: k acc)
  case 0
  then show ?case by simp
next
  case (Suc d)
  obtain n v where r: "inc_list keys (nth_assignment keys k) = (n, v)"
    by (cases "inc_list keys (nth_assignment keys k)")
  note step = inc_list_nth_assignment [OF Suc.prems, unfolded r fst_conv snd_conv]
  show ?case
  proof (cases "k + 1 = total_count keys")
    case True
    with step have n: "n = length keys" by simp
    have "[k..<total_count keys] = [k]"
      using True by (metis Suc_eq_plus1 upt_rec lessI upt_eq_Nil_conv le_refl)
    then show ?thesis
      by (subst enumerate_from.simps) (simp add: increment_0 r n)
  next
    case False
    then have lt: "k + 1 < total_count keys" using Suc.prems(2) by simp
    with step have n: "n < length keys" and v: "v = nth_assignment keys (k + 1)"
      by simp_all
    have d: "d = total_count keys - (k + 1)" using Suc.hyps(2) by simp
    have "enumerate_from keys (acc @ [nth_assignment keys k]) (nth_assignment keys (k + 1)) =
          Some ((acc @ [nth_assignment keys k]) @ map (nth_assignment keys) [k + 1..<total_count keys])"
      by (rule Suc.hyps(1) [OF d Suc.prems(1) lt])
    moreover have "[k..<total_count keys] = k # [k + 1..<total_count keys]"
      using Suc.prems(2) by (simp add: upt_rec)
    ultimately show ?thesis
      using n by (subst enumerate_from.simps) (simp add: increment_0 r v)
  qed
qed

lemma init_values_apply:
  "init_values keys m l = (if l \<in> fst ` set keys then Some 0 else m l)"
  by (induction keys arbitrary: m) auto

lemma nth_assignment_0:
  "nth_assignment keys 0 l = (if l \<in> fst ` set keys then Some 0 else None)"
  by (induction keys) auto

lemma init_values_empty: "init_values keys Map.empty = nth_assignment keys 0"
  by (rule ext) (simp add: init_values_apply nth_assignment_0)

lemma CartesianProduct_distinct_labels:
  "distinct (map fst keys) \<Longrightarrow>
   CartesianProduct keys = Some (map (nth_assignment keys) [0..<total_count keys])"
  unfolding CartesianProduct_def init_values_empty
  using enumerate_from_run [of keys 0 "[]"] by (simp add: total_count_pos)

lemma dom_nth_assignment: "dom (nth_assignment keys k) = fst ` set keys"
  by (induction keys arbitrary: k) auto

lemma nth_assignment_nth:
  "distinct (map fst keys) \<Longrightarrow> i < length keys \<Longrightarrow>
   nth_assignment keys k (fst (keys ! i)) =
     Some ((k div total_count (take i keys)) mod effective_card (snd (keys ! i)))"
proof (induction keys arbitrary: i k)
  case Nil
  then show ?case by simp
next
  case (Cons key rest)
  show ?case
  proof (cases i)
    case 0
    then show ?thesis by (simp add: total_count_def)
  next
    case (Suc i')
    then have i': "i' < length rest" using Cons.prems(2) by simp
    have ne: "fst (rest ! i') \<noteq> fst key"
      using Cons.prems(1) i' by (metis distinct.simps(2) list.simps(9) nth_map nth_mem length_map)
    have dist: "distinct (map fst rest)" using Cons.prems(1) by simp
    show ?thesis
      using Cons.IH [OF dist i', of "k div effective_card (snd key)"] ne
      by (simp add: Suc total_count_Cons div_mult2_eq)
  qed
qed

lemma nth_assignment_inj:
  "distinct (map fst keys) \<Longrightarrow> k < total_count keys \<Longrightarrow> k' < total_count keys \<Longrightarrow>
   nth_assignment keys k = nth_assignment keys k' \<Longrightarrow> k = k'"
proof (induction keys arbitrary: k k')
  case Nil
  then show ?case by (simp add: total_count_def)
next
  case (Cons key rest)
  let ?c = "effective_card (snd key)"
  let ?l = "fst key"
  have cpos: "0 < ?c" by (rule effective_card_pos)
  have nin: "?l \<notin> fst ` set rest" and dist: "distinct (map fst rest)"
    using Cons.prems(1) by auto
  have eq: "(nth_assignment rest (k div ?c))(?l \<mapsto> k mod ?c) =
            (nth_assignment rest (k' div ?c))(?l \<mapsto> k' mod ?c)"
    using Cons.prems(4) by (simp only: nth_assignment.simps)
  have md: "k mod ?c = k' mod ?c"
    using fun_cong [OF eq, of ?l] by simp
  have "nth_assignment rest (k div ?c) x = nth_assignment rest (k' div ?c) x" for x
  proof (cases "x = ?l")
    case True
    have "?l \<notin> dom (nth_assignment rest (k div ?c))" "?l \<notin> dom (nth_assignment rest (k' div ?c))"
      using nin by (simp_all only: dom_nth_assignment not_False_eq_True)
    then show ?thesis unfolding True by (metis domIff)
  next
    case False
    then show ?thesis using fun_cong [OF eq, of x] by simp
  qed
  then have eqr: "nth_assignment rest (k div ?c) = nth_assignment rest (k' div ?c)"
    by (rule ext)
  have "k div ?c < total_count rest" "k' div ?c < total_count rest"
    using Cons.prems(2,3) cpos by (simp_all add: total_count_Cons less_mult_imp_div_less mult.commute)
  then have "k div ?c = k' div ?c"
    using Cons.IH [OF dist _ _ eqr] by simp
  with md show ?case
    by (metis div_mult_mod_eq)
qed

lemma nth_assignment_surj:
  "distinct (map fst keys) \<Longrightarrow> dom m = fst ` set keys \<Longrightarrow>
   (\<forall>key \<in> set keys. \<exists>v < effective_card (snd key). m (fst key) = Some v) \<Longrightarrow>
   \<exists>k < total_count keys. nth_assignment keys k = m"
proof (induction keys arbitrary: m)
  case Nil
  then show ?case by (simp add: total_count_def)
next
  case (Cons key rest)
  let ?c = "effective_card (snd key)"
  let ?l = "fst key"
  have cpos: "0 < ?c" by (rule effective_card_pos)
  have nin: "?l \<notin> fst ` set rest" and dist: "distinct (map fst rest)"
    using Cons.prems(1) by auto
  obtain d where d: "d < ?c" "m ?l = Some d"
    using Cons.prems(3) by auto
  let ?m' = "m(?l := None)"
  have dom': "dom ?m' = fst ` set rest"
    using Cons.prems(2) nin by auto
  have val': "\<forall>key' \<in> set rest. \<exists>v < effective_card (snd key'). ?m' (fst key') = Some v"
  proof
    fix key' assume k': "key' \<in> set rest"
    then have "fst key' \<noteq> ?l" using nin by (metis image_eqI)
    moreover have "\<exists>v < effective_card (snd key'). m (fst key') = Some v"
      using Cons.prems(3) k' by simp
    ultimately show "\<exists>v < effective_card (snd key'). ?m' (fst key') = Some v" by simp
  qed
  obtain k' where k': "k' < total_count rest" "nth_assignment rest k' = ?m'"
    using Cons.IH [OF dist dom' val'] by blast
  let ?k = "d + ?c * k'"
  have "?k < ?c * total_count rest"
  proof -
    have "?k < ?c + ?c * k'" using d(1) by simp
    also have "\<dots> = ?c * Suc k'" by simp
    also have "\<dots> \<le> ?c * total_count rest" using k'(1) by (intro mult_le_mono2) simp
    finally show ?thesis .
  qed
  moreover have "nth_assignment (key # rest) ?k = m"
  proof -
    have "?k mod ?c = d" "?k div ?c = k'" using d(1) by simp_all
    then have "nth_assignment (key # rest) ?k = ?m'(?l \<mapsto> d)"
      by (simp add: k'(2))
    also have "\<dots> = m" using d(2) by (auto simp: fun_eq_iff)
    finally show ?thesis .
  qed
  ultimately show ?case
    unfolding total_count_Cons by blast
qed


lemma effective_card_id: "1 \<le> c \<Longrightarrow> effective_card c = c"
  by (simp add: effective_card_def)

lemma total_count_prod_list:
  "\<forall>key \<in> set keys. 1 \<le> snd key \<Longrightarrow> total_count keys = prod_list (map snd keys)"
  by (induction keys) (simp_all add: total_count_def effective_card_id)

lemma nth_assignment_valid:
  assumes "distinct (map fst keys)" and "key \<in> set keys"
  shows "\<exists>v < effective_card (snd key). nth_assignment keys k (fst key) = Some v"
proof -
  obtain i where i: "i < length keys" "keys ! i = key"
    using assms(2) by (auto simp: in_set_conv_nth)
  have "nth_assignment keys k (fst key) =
        Some ((k div total_count (take i keys)) mod effective_card (snd key))"
    using nth_assignment_nth [OF assms(1) i(1), of k] by (simp add: i(2))
  moreover have "(k div total_count (take i keys)) mod effective_card (snd key) < effective_card (snd key)"
    using effective_card_pos by simp
  ultimately show ?thesis by blast
qed

lemma set_nth_assignment:
  assumes "distinct (map fst keys)"
  shows "nth_assignment keys ` {0..<total_count keys} =
         {m. dom m = fst ` set keys \<and>
             (\<forall>key \<in> set keys. \<exists>v < effective_card (snd key). m (fst key) = Some v)}"
proof (intro set_eqI iffI)
  fix m assume "m \<in> nth_assignment keys ` {0..<total_count keys}"
  then obtain k where "m = nth_assignment keys k" by blast
  then show "m \<in> {m. dom m = fst ` set keys \<and>
             (\<forall>key \<in> set keys. \<exists>v < effective_card (snd key). m (fst key) = Some v)}"
    using nth_assignment_valid [OF assms] by (simp add: dom_nth_assignment)
next
  fix m assume "m \<in> {m. dom m = fst ` set keys \<and>
             (\<forall>key \<in> set keys. \<exists>v < effective_card (snd key). m (fst key) = Some v)}"
  then have "\<exists>k < total_count keys. nth_assignment keys k = m"
    by (intro nth_assignment_surj [OF assms]) simp_all
  then show "m \<in> nth_assignment keys ` {0..<total_count keys}"
    by force
qed

lemma distinct_nth_assignment:
  assumes "distinct (map fst keys)"
  shows "distinct (map (nth_assignment keys) [0..<total_count keys])"
proof -
  have "inj_on (nth_assignment keys) (set [0..<total_count keys])"
    by (rule inj_onI) (simp, metis nth_assignment_inj [OF assms])
  then show ?thesis by (simp add: distinct_map)
qed

lemma enumerate_from_prefix:
  assumes "enumerate_from keys acc v = Some r"
  shows "\<exists>rest. r = acc @ v # rest"
proof (rule enumerate_from.raw_induct
    [where P = "\<lambda>keys acc v r. \<exists>rest. r = acc @ v # rest", OF _ assms])
  fix enum :: "'a DiscreteKey list \<Rightarrow> 'a Assignment list \<Rightarrow> 'a Assignment \<Rightarrow> 'a Assignment list option"
  fix keys acc v r
  assume IH: "\<And>keys acc v r. enum keys acc v = Some r \<Longrightarrow> \<exists>rest. r = acc @ v # rest"
  assume body: "(let allPossValues1 = acc @ [v]; (j, values1) = increment keys 0 v
                 in if j = length keys then Some allPossValues1
                    else enum keys allPossValues1 values1) = Some r"
  obtain j v1 where inc: "increment keys 0 v = (j, v1)"
    by (cases "increment keys 0 v")
  show "\<exists>rest. r = acc @ v # rest"
  proof (cases "j = length keys")
    case True
    with body show ?thesis by (auto simp: inc)
  next
    case False
    with body have "enum keys (acc @ [v]) v1 = Some r" by (simp add: inc)
    from IH [OF this] show ?thesis by auto
  qed
qed

text \<open>Whenever the loop returns, its result starts with the all-zero assignment.\<close>

lemma CartesianProduct_first:
  assumes "CartesianProduct keys = Some r"
  shows "r \<noteq> [] \<and> hd r = init_values keys Map.empty"
  using enumerate_from_prefix [OF assms [unfolded CartesianProduct_def]] by auto

lemma duplicate_label_loop:
  assumes "enumerate_from keys acc v = Some r"
  shows "\<not> (keys = [(0::nat, 2), (0, 3)] \<and> v = [0 \<mapsto> 1])"
proof (rule enumerate_from.raw_induct
    [where P = "\<lambda>keys acc v r. \<not> (keys = [(0::nat, 2), (0, 3)] \<and> v = [0 \<mapsto> 1])", OF _ assms])
  fix enum :: "nat DiscreteKey list \<Rightarrow> nat Assignment list \<Rightarrow> nat Assignment \<Rightarrow> nat Assignment list option"
  fix keys acc v r
  assume IH: "\<And>keys acc v r. enum keys acc v = Some r \<Longrightarrow>
                \<not> (keys = [(0::nat, 2), (0, 3)] \<and> v = [0 \<mapsto> 1])"
  assume body: "(let allPossValues1 = acc @ [v]; (j, values1) = increment keys 0 v
                 in if j = length keys then Some allPossValues1
                    else enum keys allPossValues1 values1) = Some r"
  show "\<not> (keys = [(0::nat, 2), (0, 3)] \<and> v = [0 \<mapsto> 1])"
  proof
    assume a: "keys = [(0::nat, 2), (0, 3)] \<and> v = [0 \<mapsto> 1]"
    have inc: "increment [(0::nat, 2), (0, 3)] 0 [0 \<mapsto> 1] = (1, [0 \<mapsto> 1])"
      by (simp add: increment.simps at_key_def)
    from a have k: "keys = [(0::nat, 2), (0, 3)]" and v: "v = [0 \<mapsto> 1]"
      by simp_all
    have "enum keys (acc @ [v]) v = Some r"
      using body unfolding k v inc Let_def prod.case by simp
    from IH [OF this] a show False by simp
  qed
qed

text \<open>
  C9: for a list of (label, cardinality) pairs with distinct labels and every cardinality
  at least 1, \<open>CartesianProduct\<close> returns a list whose length is the product of the
  cardinalities, whose elements are pairwise distinct, and whose elements are exactly the
  assignments that map each listed label to a value below its cardinality (and nothing
  else).  The first element assigns 0 to every label, and the \<open>k\<close>-th element holds
  the mixed-radix digits of \<open>k\<close> with the first listed label as the fastest digit.
\<close>

theorem CartesianProduct_enumerates:
  assumes "distinct (map fst keys)" and "\<forall>key \<in> set keys. 1 \<le> snd key"
  shows "\<exists>r. CartesianProduct keys = Some r \<and>
           length r = prod_list (map snd keys) \<and>
           distinct r \<and>
           set r = {m. dom m = fst ` set keys \<and>
                       (\<forall>key \<in> set keys. \<exists>v < snd key. m (fst key) = Some v)} \<and>
           (\<forall>key \<in> set keys. (r ! 0) (fst key) = Some 0) \<and>
           (\<forall>k < length r. \<forall>i < length keys.
              (r ! k) (fst (keys ! i)) =
                Some ((k div prod_list (map snd (take i keys))) mod snd (keys ! i)))"
proof -
  let ?r = "map (nth_assignment keys) [0..<total_count keys]"
  have cp: "CartesianProduct keys = Some ?r"
    by (rule CartesianProduct_distinct_labels [OF assms(1)])
  have tot: "total_count keys = prod_list (map snd keys)"
    by (rule total_count_prod_list [OF assms(2)])
  have len: "length ?r = prod_list (map snd keys)"
    by (simp add: tot)
  have dist: "distinct ?r"
    by (rule distinct_nth_assignment [OF assms(1)])
  have effk: "effective_card (snd key) = snd key" if "key \<in> set keys" for key
    using assms(2) that by (simp add: effective_card_id)
  have "set ?r = nth_assignment keys ` {0..<total_count keys}" by simp
  also have "\<dots> = {m. dom m = fst ` set keys \<and>
             (\<forall>key \<in> set keys. \<exists>v < effective_card (snd key). m (fst key) = Some v)}"
    by (rule set_nth_assignment [OF assms(1)])
  also have "\<dots> = {m. dom m = fst ` set keys \<and>
             (\<forall>key \<in> set keys. \<exists>v < snd key. m (fst key) = Some v)}"
    using effk by auto
  finally have cover: "set ?r = {m. dom m = fst ` set keys \<and>
             (\<forall>key \<in> set keys. \<exists>v < snd key. m (fst key) = Some v)}" .
  have zero: "\<forall>key \<in> set keys. (?r ! 0) (fst key) = Some 0"
    using total_count_pos [of keys] by (simp add: nth_assignment_0 del: upt_Suc)
  have digit: "(?r ! k) (fst (keys ! i)) =
                Some ((k div prod_list (map snd (take i keys))) mod snd (keys ! i))"
    if k: "k < length ?r" and i: "i < length keys" for k i
  proof -
    have "\<forall>key \<in> set (take i keys). 1 \<le> snd key"
      using assms(2) by (meson in_set_takeD)
    then have t: "total_count (take i keys) = prod_list (map snd (take i keys))"
      by (rule total_count_prod_list)
    have "?r ! k = nth_assignment keys k" using k by simp
    then show ?thesis
      using nth_assignment_nth [OF assms(1) i, of k] effk [of "keys ! i"] i
      by (simp add: t)
  qed
  show ?thesis
    using cp len dist cover zero digit by blast
qed

theorem CartesianProduct_enumerates_witness:
  "distinct (map fst [(0::nat, 2::nat), (1, 3)]) \<and>
   (\<exists>r. CartesianProduct [(0::nat, 2), (1, 3)] = Some r \<and> length r = 6 \<and> distinct r)"
proof -
  have h1: "distinct (map fst [(0::nat, 2::nat), (1, 3)])" by simp
  have h2: "\<forall>key \<in> set [(0::nat, 2::nat), (1, 3)]. 1 \<le> snd key" by simp
  obtain r where r: "CartesianProduct [(0::nat, 2), (1, 3)] = Some r"
    "length r = prod_list (map snd [(0::nat, 2::nat), (1, 3)])" "distinct r"
    using CartesianProduct_enumerates [OF h1 h2] by (elim exE conjE)
  have "length r = 6" using r(2) by simp
  with r have "\<exists>r. CartesianProduct [(0::nat, 2), (1, 3)] = Some r \<and> length r = 6 \<and> distinct r"
    by (intro exI [of _ r] conjI)
  with h1 show ?thesis by (rule conjI)
qed

text \<open>
  C10: termination does not hold for every input list.  With a repeated label the
  wrap of the first occurrence is undone by the increment of the second, and the
  \<open>while (1)\<close> loop never reaches its \<open>break\<close>.
\<close>

theorem CartesianProduct_duplicate_label_diverges:
  "CartesianProduct [(0::nat, 2), (0, 3)] = None"
proof (cases "CartesianProduct [(0::nat, 2), (0, 3)]")
  case None
  then show ?thesis .
next
  case (Some r)
  have inc: "increment [(0::nat, 2), (0, 3)] 0 [0 \<mapsto> 0] = (0, [0 \<mapsto> 1])"
    by (simp add: increment.simps at_key_def)
  have "enumerate_from [(0::nat, 2), (0, 3)] [[0 \<mapsto> 0]] [0 \<mapsto> 1] = Some r"
    using Some unfolding CartesianProduct_def
    by (subst (asm) enumerate_from.simps) (simp add: inc)
  from duplicate_label_loop [OF this] show ?thesis by simp
qed

text \<open>
  C10 (amended): for every list of (label, cardinality) pairs with pairwise distinct
  labels, including the empty list and lists with a cardinality of 0,
  \<open>CartesianProduct\<close> terminates with a non-empty result whose first element
  assigns 0 to every listed label.
\<close>

theorem CartesianProduct_terminates:
  assumes "distinct (map fst keys)"
  shows "\<exists>r. CartesianProduct keys = Some r \<and> r \<noteq> [] \<and>
             (\<forall>key \<in> set keys. hd r (fst key) = Some 0)"
proof -
  let ?r = "map (nth_assignment keys) [0..<total_count keys]"
  have cp: "CartesianProduct keys = Some ?r"
    by (rule CartesianProduct_distinct_labels [OF assms])
  have pos: "0 < total_count keys" by (rule total_count_pos)
  then have ne: "?r \<noteq> []" by simp
  have "[0..<total_count keys] = 0 # [1..<total_count keys]"
    using pos by (simp add: upt_rec)
  then have "hd ?r = nth_assignment keys 0" by simp
  then have "\<forall>key \<in> set keys. hd ?r (fst key) = Some 0"
    by (simp add: nth_assignment_0)
  with cp ne show ?thesis by blast
qed

theorem CartesianProduct_terminates_witness:
  "distinct (map fst [(0::nat, 0::nat), (1, 2)]) \<and>
   (\<exists>r. CartesianProduct [(0::nat, 0), (1, 2)] = Some r \<and> r \<noteq> [] \<and>
        hd r 0 = Some 0 \<and> hd r 1 = Some 0)"
  using CartesianProduct_terminates [of "[(0::nat, 0::nat), (1, 2)]"] by simp

section \<open>Properties of the Jacobian factors\<close>

text \<open>A loop of \<open>DMap(y + off) += v\<close> statements adds up the segments that cover an index.\<close>

lemma fold_DMap_add:
  "fold (\<lambda>pos y. DMap_add D y (off pos) (v pos)) [0..<n] y i =
   y i + (\<Sum>pos | pos < n \<and> off pos \<le> i \<and> i < off pos + D. v pos ! (i - off pos))"
proof (induction n)
  case 0
  then show ?case by simp
next
  case (Suc n)
  let ?P = "\<lambda>pos. off pos \<le> i \<and> i < off pos + D"
  have set: "{pos. pos < Suc n \<and> ?P pos} =
             (if ?P n then insert n {pos. pos < n \<and> ?P pos} else {pos. pos < n \<and> ?P pos})"
    by (auto simp: less_Suc_eq)
  have fin: "finite {pos. pos < n \<and> ?P pos}" by simp
  have nin: "n \<notin> {pos. pos < n \<and> ?P pos}" by simp
  show ?case
    using Suc.IH by (simp add: set DMap_add_def sum.insert [OF fin nin] del: upt_Suc add: upt_Suc_append)
qed

text \<open>
  C8: the raw-memory \<open>gradientAtZero(d)\<close> leaves every entry of the buffer \<open>d\<close> as it
  was; it writes no value at all.
\<close>

theorem gradientAtZero_unchanged: "gradientAtZero f d = d"
  by (simp add: gradientAtZero_def)

text \<open>
  C6: the raw-memory \<open>hessianDiagonal(d)\<close> should add the squared column norms of the
  block of each variable at the offset \<open>D\<close> times the key of that variable.  The code
  adds them at \<open>D\<close> times the position \<open>j\<close> of the variable in the factor.  For the
  factor on the single key 1 with \<open>D = 1\<close> and block \<open>(2)\<close>, the squared norm 4 arrives
  in \<open>d[0]\<close> while \<open>d[1]\<close>, the entry of key 1, stays 0.
\<close>

theorem hessianDiagonal_offset_by_position:
  "hessianDiagonal 1
     \<lparr>keys' = [1], Ab' = \<lparr>matrix = [[2, 7]], variableColOffsets = [0, 1, 2]\<rparr>, model' = None\<rparr>
     (\<lambda>i. 0) 0 = 4 \<and>
   hessianDiagonal 1
     \<lparr>keys' = [1], Ab' = \<lparr>matrix = [[2, 7]], variableColOffsets = [0, 1, 2]\<rparr>, model' = None\<rparr>
     (\<lambda>i. 0) 1 = 0"
  by (simp add: hessianDiagonal_def size_keys_def DMap_add_def hessianDiagonal_dj_def
        squaredNorm_def col_def block_def)

text \<open>What the loop does in general: position \<open>j\<close> owns the entries from \<open>D * j\<close> on.\<close>

lemma hessianDiagonal_closed_form:
  "hessianDiagonal D f d i =
   d i + (\<Sum>j | j < size_keys f \<and> D * j \<le> i \<and> i < D * j + D.
            squaredNorm (col (block (Ab' f) j) (i - D * j)))"
proof -
  have "hessianDiagonal D f d i =
        d i + (\<Sum>j | j < size_keys f \<and> D * j \<le> i \<and> i < D * j + D.
                 hessianDiagonal_dj D f j ! (i - D * j))"
    unfolding hessianDiagonal_def by (rule fold_DMap_add)
  also have "(\<Sum>j | j < size_keys f \<and> D * j \<le> i \<and> i < D * j + D.
                 hessianDiagonal_dj D f j ! (i - D * j)) =
             (\<Sum>j | j < size_keys f \<and> D * j \<le> i \<and> i < D * j + D.
                 squaredNorm (col (block (Ab' f) j) (i - D * j)))"
    by (rule sum.cong) (auto simp: hessianDiagonal_dj_def)
  finally show ?thesis .
qed

text \<open>
  C1: two calls of \<open>updateHessian\<close> on a zero accumulator should leave
  \<open>b1\<^sup>T b1 + b2\<^sup>T b2\<close> in the scalar block \<open>(s_B, s_B)\<close>, in either order.  The code
  assigns that block instead of adding to it.  For a camera block of width 6, a landmark
  block of width 3, \<open>b1 = (1, 0)\<close> and \<open>b2 = (0, 2)\<close> the block holds 4 after
  \<open>f1; f2\<close> and 1 after \<open>f2; f1\<close>, not 5, while entry \<open>(0, 0)\<close> of the camera block
  has added up to 2.
\<close>

theorem updateHessian_bias_block_overwritten:
  "coeff (snd (updateHessian 6 3
       (BinaryJacobianFactor 6 3 0 [[1, 0, 0, 0, 0, 0], [0, 1, 0, 0, 0, 0]]
          1 [[1, 0, 0], [0, 1, 0]] [0, 2] None) [0, 1]
     (snd (updateHessian 6 3
       (BinaryJacobianFactor 6 3 0 [[1, 0, 0, 0, 0, 0], [0, 1, 0, 0, 0, 0]]
          1 [[1, 0, 0], [0, 1, 0]] [1, 0] None) [0, 1]
        \<lparr>nBlocks = 3, coeff = (\<lambda>i j r c. 0)\<rparr>)))) 2 2 0 0 = 4 \<and>
   coeff (snd (updateHessian 6 3
       (BinaryJacobianFactor 6 3 0 [[1, 0, 0, 0, 0, 0], [0, 1, 0, 0, 0, 0]]
          1 [[1, 0, 0], [0, 1, 0]] [1, 0] None) [0, 1]
     (snd (updateHessian 6 3
       (BinaryJacobianFactor 6 3 0 [[1, 0, 0, 0, 0, 0], [0, 1, 0, 0, 0, 0]]
          1 [[1, 0, 0], [0, 1, 0]] [0, 2] None) [0, 1]
        \<lparr>nBlocks = 3, coeff = (\<lambda>i j r c. 0)\<rparr>)))) 2 2 0 0 = 1 \<and>
   coeff (snd (updateHessian 6 3
       (BinaryJacobianFactor 6 3 0 [[1, 0, 0, 0, 0, 0], [0, 1, 0, 0, 0, 0]]
          1 [[1, 0, 0], [0, 1, 0]] [0, 2] None) [0, 1]
     (snd (updateHessian 6 3
       (BinaryJacobianFactor 6 3 0 [[1, 0, 0, 0, 0, 0], [0, 1, 0, 0, 0, 0]]
          1 [[1, 0, 0], [0, 1, 0]] [1, 0] None) [0, 1]
        \<lparr>nBlocks = 3, coeff = (\<lambda>i j r c. 0)\<rparr>)))) 0 0 0 0 = 2"
  by (simp add: updateHessian_def BinaryJacobianFactor_def Let_def
       coeff_assign_def rankUpdate_def knownOffDiagonal_add_def transpose_times_def Block_def dot_def col_def Slot_def)

lemma whiten_factor_model: "model' (whiten_factor f) = None"
  by (simp add: whiten_factor_def split: option.splits)

text \<open>
  C3: for a factor whose noise model is constrained, \<open>updateHessian\<close> throws
  \<open>invalid_argument\<close> and leaves the accumulator as it was; for a unit model, a
  diagonal model and no model it throws nothing.
\<close>

theorem updateHessian_constrained_rejected:
  "(isConstrained m \<longrightarrow>
      updateHessian DimC DimL (f\<lparr>model' := Some m\<rparr>) infoKeys info =
        (Some (invalid_argument ''BinaryJacobianFactor::updateHessian: cannot update information with constrained noise model''), info)) \<and>
   (\<not> isConstrained m \<longrightarrow>
      fst (updateHessian DimC DimL (f\<lparr>model' := Some m\<rparr>) infoKeys info) = None) \<and>
   fst (updateHessian DimC DimL (f\<lparr>model' := None\<rparr>) infoKeys info) = None"
  by (cases m)
     (simp_all add: updateHessian_def JacobianFactor_updateHessian_def whiten_factor_model Let_def)

theorem updateHessian_constrained_rejected_witness:
  "isConstrained (Constrained [0, 1]) \<and>
   updateHessian 1 1 (BinaryJacobianFactor 1 1 0 [[1], [0]] 1 [[0], [1]] [1, 0] (Some (Constrained [0, 1])))
       [0, 1] \<lparr>nBlocks = 3, coeff = (\<lambda>i j r c. 0)\<rparr> =
     (Some (invalid_argument ''BinaryJacobianFactor::updateHessian: cannot update information with constrained noise model''),
      \<lparr>nBlocks = 3, coeff = (\<lambda>i j r c. 0)\<rparr>) \<and>
   \<not> isConstrained (Diagonal [2, 2]) \<and>
   fst (updateHessian 1 1 (BinaryJacobianFactor 1 1 0 [[1], [0]] 1 [[0], [1]] [1, 0] (Some (Diagonal [2, 2])))
       [0, 1] \<lparr>nBlocks = 3, coeff = (\<lambda>i j r c. 0)\<rparr>) = None"
  using updateHessian_constrained_rejected
          [of "Constrained [0, 1]" 1 1 "BinaryJacobianFactor 1 1 0 [[1], [0]] 1 [[0], [1]] [1, 0] None"
              "[0, 1]" "\<lparr>nBlocks = 3, coeff = (\<lambda>i j r c. 0)\<rparr>"]
        updateHessian_constrained_rejected
          [of "Diagonal [2, 2]" 1 1 "BinaryJacobianFactor 1 1 0 [[1], [0]] 1 [[0], [1]] [1, 0] None"
              "[0, 1]" "\<lparr>nBlocks = 3, coeff = (\<lambda>i j r c. 0)\<rparr>"]
  by (simp add: BinaryJacobianFactor_def)

lemma dot_nth_sum:
  "length u = length v \<Longrightarrow> dot u v = (\<Sum>i<length u. u ! i * v ! i)"
proof (induction u v rule: list_induct2)
  case Nil
  then show ?case by (simp add: dot_def)
next
  case (Cons a u b v)
  then show ?case
    by (simp add: dot_def sum.lessThan_Suc_shift del: sum.lessThan_Suc)
qed

lemma dot_ConstDMap:
  "length u = D \<Longrightarrow> dot u (ConstDMap D x off) = (\<Sum>c<D. u ! c * x (off + c))"
  by (simp add: dot_nth_sum ConstDMap_def)

lemma length_times_vec_block: "length (times_vec (block Ab pos) v) = rows Ab"
  by (simp add: times_vec_def block_def rows_def)

lemma length_block: "length (block Ab pos) = rows Ab"
  by (simp add: block_def rows_def)

lemma fold_plus_vec:
  assumes "\<And>pos. length (g pos) = m"
  shows "fold (\<lambda>pos Ax. plus_vec Ax (g pos)) [0..<n] (zero_vec m) =
         map (\<lambda>r. \<Sum>pos<n. g pos ! r) [0..<m]"
proof (induction n)
  case 0
  show ?case
    by (rule nth_equalityI) (simp_all add: zero_vec_def)
next
  case (Suc n)
  have "plus_vec (map (\<lambda>r. \<Sum>pos<n. g pos ! r) [0..<m]) (g n) =
        map (\<lambda>r. \<Sum>pos<Suc n. g pos ! r) [0..<m]"
    by (rule nth_equalityI) (simp_all add: plus_vec_def assms)
  with Suc.IH show ?case
    by (simp del: upt_Suc add: upt_Suc_append)
qed

lemma blocks_of_width_row:
  assumes "blocks_of_width D f" and "pos < length (keys' f)" and "r < rows (Ab' f)"
  shows "length (block (Ab' f) pos ! r) = D"
proof -
  from assms(1,2) have "list_all (\<lambda>row. length row = D) (block (Ab' f) pos)"
    by (simp add: blocks_of_width_def size_keys_def list_all_iff)
  moreover from assms(3) have "block (Ab' f) pos ! r \<in> set (block (Ab' f) pos)"
    by (simp add: length_block)
  ultimately show ?thesis by (simp add: list_all_iff)
qed

lemma times_vec_ConstDMap_nth:
  assumes "r < length B" and "length (B ! r) = D"
  shows "times_vec B (ConstDMap D x off) ! r = (\<Sum>c<D. B ! r ! c * x (off + c))"
  using assms by (simp add: times_vec_def dot_ConstDMap)

lemma multiplyHessianAdd_Ax_sum:
  assumes "blocks_of_width D f"
  shows "multiplyHessianAdd_Ax D f x = sum_Ax D f x"
proof -
  have "multiplyHessianAdd_Ax D f x =
        map (\<lambda>r. \<Sum>pos<length (keys' f).
                  times_vec (block (Ab' f) pos) (ConstDMap D x (D * keys' f ! pos)) ! r)
            [0..<rows (Ab' f)]"
    unfolding multiplyHessianAdd_Ax_def size_keys_def
    by (rule fold_plus_vec) (rule length_times_vec_block)
  also have "\<dots> = sum_Ax D f x"
    unfolding sum_Ax_def
  proof (rule map_cong [OF refl])
    fix r assume "r \<in> set [0..<rows (Ab' f)]"
    then have r: "r < rows (Ab' f)" by simp
    show "(\<Sum>pos<length (keys' f).
             times_vec (block (Ab' f) pos) (ConstDMap D x (D * keys' f ! pos)) ! r) =
          (\<Sum>pos<length (keys' f). \<Sum>c<D.
             block (Ab' f) pos ! r ! c * x (D * keys' f ! pos + c))"
    proof (rule sum.cong [OF refl])
      fix pos assume "pos \<in> {..<length (keys' f)}"
      then have pos: "pos < length (keys' f)" by simp
      show "times_vec (block (Ab' f) pos) (ConstDMap D x (D * keys' f ! pos)) ! r =
            (\<Sum>c<D. block (Ab' f) pos ! r ! c * x (D * keys' f ! pos + c))"
        by (rule times_vec_ConstDMap_nth)
           (simp_all add: length_block r blocks_of_width_row [OF assms pos r])
    qed
  qed
  finally show ?thesis .
qed

lemma length_sum_Ax: "length (sum_Ax D f x) = rows (Ab' f)"
  by (simp add: sum_Ax_def)

lemma length_whiten: "dim_is m (length v) \<Longrightarrow> length (whiten m v) = length v"
  by (cases m) (simp_all add: whiten_def)

lemma transpose_times_vec_scaled_nth:
  assumes "k < D" and "length w = length B"
  shows "transpose_times_vec D B (scale_vec alpha w) ! k =
         (\<Sum>r<length B. B ! r ! k * (alpha * w ! r))"
proof -
  have "transpose_times_vec D B (scale_vec alpha w) ! k = dot (col B k) (scale_vec alpha w)"
    using assms(1) by (simp add: transpose_times_vec_def)
  also have "\<dots> = (\<Sum>r<length (col B k). col B k ! r * scale_vec alpha w ! r)"
    by (rule dot_nth_sum) (simp add: col_def scale_vec_def assms(2))
  also have "\<dots> = (\<Sum>r<length B. B ! r ! k * (alpha * w ! r))"
    by (simp add: col_def scale_vec_def assms(2))
  finally show ?thesis .
qed

text \<open>
  C5: for a factor with at least one key whose variable blocks have \<open>D\<close> columns and whose
  noise model, if one is attached, has the dimension of the residual, the raw-memory
  \<open>multiplyHessianAdd\<close> adds to \<open>y[i]\<close>, for every variable whose \<open>D\<close>-segment (at offset
  \<open>D\<close> times the key) covers \<open>i\<close>, the entry of \<open>A_pos\<^sup>T s\<close> for that position of the
  segment: the sum over the rows \<open>r\<close> of \<open>A_pos[r][i - D * key]\<close> times \<open>s[r]\<close>.  Here
  \<open>s[r]\<close> is \<open>alpha\<close> times entry \<open>r\<close> of \<open>Ax\<close> whitened twice when a noise model is
  attached, and \<open>alpha\<close> times entry \<open>r\<close> of \<open>Ax\<close> otherwise; entry \<open>r\<close> of \<open>Ax\<close> is the sum
  over the variables and over \<open>c < D\<close> of \<open>A_pos[r][c]\<close> times \<open>x[D * key + c]\<close>.  An entry
  of \<open>y\<close> outside all the segments is unchanged, and a factor without keys leaves \<open>y\<close> as
  it was.
\<close>

theorem multiplyHessianAdd_closed_form:
  "(keys' f \<noteq> [] \<and> blocks_of_width D f \<and>
    (case model' f of None \<Rightarrow> True | Some m \<Rightarrow> dim_is m (rows (Ab' f))) \<longrightarrow>
      multiplyHessianAdd D f alpha x y i =
        y i + (\<Sum>pos | pos < length (keys' f) \<and> D * keys' f ! pos \<le> i \<and> i < D * keys' f ! pos + D.
                 \<Sum>r<rows (Ab' f).
                   block (Ab' f) pos ! r ! (i - D * keys' f ! pos) *
                   (alpha * (case model' f of
                               None \<Rightarrow> sum_Ax D f x
                             | Some m \<Rightarrow> whiten m (whiten m (sum_Ax D f x))) ! r))) \<and>
   ((\<forall>pos < length (keys' f). i < D * keys' f ! pos \<or> D * keys' f ! pos + D \<le> i) \<longrightarrow>
      multiplyHessianAdd D f alpha x y i = y i) \<and>
   (keys' f = [] \<longrightarrow> multiplyHessianAdd D f alpha x y = y)"
proof -
  let ?w = "case model' f of
              None \<Rightarrow> sum_Ax D f x
            | Some m \<Rightarrow> whiten m (whiten m (sum_Ax D f x))"
  let ?v = "case model' f of
              None \<Rightarrow> multiplyHessianAdd_Ax D f x
            | Some m \<Rightarrow> whiten m (whiten m (multiplyHessianAdd_Ax D f x))"
  let ?S = "{pos. pos < length (keys' f) \<and> D * keys' f ! pos \<le> i \<and> i < D * keys' f ! pos + D}"
  have scatter: "multiplyHessianAdd D f alpha x y i =
            y i + (\<Sum>pos \<in> ?S. transpose_times_vec D (block (Ab' f) pos) (scale_vec alpha ?v)
                                 ! (i - D * keys' f ! pos))"
    if "keys' f \<noteq> []"
    using that
    by (simp add: multiplyHessianAdd_def empty_keys_def Let_def size_keys_def fold_DMap_add)
  have ne: "multiplyHessianAdd D f alpha x y i =
            y i + (\<Sum>pos \<in> ?S. \<Sum>r<rows (Ab' f).
                     block (Ab' f) pos ! r ! (i - D * keys' f ! pos) * (alpha * ?w ! r))"
    if k: "keys' f \<noteq> []" and reg: "blocks_of_width D f"
      and dim: "case model' f of None \<Rightarrow> True | Some m \<Rightarrow> dim_is m (rows (Ab' f))"
  proof -
    have v: "?v = ?w" by (cases "model' f") (simp_all add: multiplyHessianAdd_Ax_sum [OF reg])
    have len: "length ?w = rows (Ab' f)"
    proof (cases "model' f")
      case None
      then show ?thesis by (simp add: length_sum_Ax)
    next
      case (Some m)
      with dim have "dim_is m (length (sum_Ax D f x))" by (simp add: length_sum_Ax)
      then have "length (whiten m (whiten m (sum_Ax D f x))) = length (sum_Ax D f x)"
        by (simp add: length_whiten)
      with Some show ?thesis by (simp add: length_sum_Ax)
    qed
    have "(\<Sum>pos \<in> ?S. transpose_times_vec D (block (Ab' f) pos) (scale_vec alpha ?w)
                         ! (i - D * keys' f ! pos)) =
          (\<Sum>pos \<in> ?S. \<Sum>r<rows (Ab' f).
             block (Ab' f) pos ! r ! (i - D * keys' f ! pos) * (alpha * ?w ! r))"
    proof (rule sum.cong [OF refl])
      fix pos assume "pos \<in> ?S"
      then have "i - D * keys' f ! pos < D" by auto
      then show "transpose_times_vec D (block (Ab' f) pos) (scale_vec alpha ?w)
                   ! (i - D * keys' f ! pos) =
                 (\<Sum>r<rows (Ab' f).
                    block (Ab' f) pos ! r ! (i - D * keys' f ! pos) * (alpha * ?w ! r))"
        using transpose_times_vec_scaled_nth
                [where k = "i - D * keys' f ! pos" and D = D and w = ?w
                   and B = "block (Ab' f) pos" and alpha = alpha]
        by (simp add: len length_block)
    qed
    with scatter [OF k] show ?thesis by (simp only: v)
  qed
  have frame: "multiplyHessianAdd D f alpha x y i = y i"
    if out: "\<forall>pos < length (keys' f). i < D * keys' f ! pos \<or> D * keys' f ! pos + D \<le> i"
  proof (cases "keys' f = []")
    case True
    then show ?thesis by (simp add: multiplyHessianAdd_def empty_keys_def)
  next
    case False
    have "?S = {}" using out by auto
    with scatter [OF False] show ?thesis by simp
  qed
  have emp: "multiplyHessianAdd D f alpha x y = y" if "keys' f = []"
    using that by (simp add: multiplyHessianAdd_def empty_keys_def)
  from ne frame emp show ?thesis by blast
qed

theorem multiplyHessianAdd_closed_form_witness:
  "keys' \<lparr>keys' = [2, 0],
          Ab' = \<lparr>matrix = [[1, 2, 3, 4, 9], [5, 6, 7, 8, 9]], variableColOffsets = [0, 2, 4, 5]\<rparr>,
          model' = Some (Diagonal [2, 3])\<rparr> \<noteq> [] \<and>
   blocks_of_width 2
     \<lparr>keys' = [2, 0],
      Ab' = \<lparr>matrix = [[1, 2, 3, 4, 9], [5, 6, 7, 8, 9]], variableColOffsets = [0, 2, 4, 5]\<rparr>,
      model' = Some (Diagonal [2, 3])\<rparr> \<and>
   dim_is (Diagonal [2, 3])
     (rows \<lparr>matrix = [[1, 2, 3, 4, 9], [5, 6, 7, 8, 9]], variableColOffsets = [0, 2, 4, 5]\<rparr>) \<and>
   multiplyHessianAdd 2
     \<lparr>keys' = [2, 0],
      Ab' = \<lparr>matrix = [[1, 2, 3, 4, 9], [5, 6, 7, 8, 9]], variableColOffsets = [0, 2, 4, 5]\<rparr>,
      model' = Some (Diagonal [2, 3])\<rparr>
     3 (\<lambda>i. if i = 0 then 1 else if i = 1 then 2 else if i = 4 then 3 else if i = 5 then 4 else 0)
     (\<lambda>i. 10) 5 = 10582"
proof -
  let ?f = "\<lparr>keys' = [2, 0],
             Ab' = \<lparr>matrix = [[1, 2, 3, 4, 9], [5, 6, 7, 8, 9]], variableColOffsets = [0, 2, 4, 5]\<rparr>,
             model' = Some (Diagonal [2, 3])\<rparr>"
  have S: "{pos. pos < length (keys' ?f) \<and> 2 * keys' ?f ! pos \<le> 5 \<and> 5 < 2 * keys' ?f ! pos + 2} = {0}"
    by (auto simp add: less_Suc_eq)
  have two: "{..<2::nat} = {0, 1}" by auto
  show ?thesis
    using multiplyHessianAdd_closed_form
            [of ?f 2 3 "\<lambda>i. if i = 0 then 1 else if i = 1 then 2 else if i = 4 then 3 else if i = 5 then 4 else 0"
                "\<lambda>i. 10" 5]
    unfolding S
    by (simp add: sum_Ax_def whiten_def block_def rows_def blocks_of_width_def size_keys_def
          two upt_rec)
qed



lemma dot_zero_left: "dot (replicate k 0) v = 0"
proof (induction k arbitrary: v)
  case 0
  then show ?case by (simp add: dot_def)
next
  case (Suc k)
  then show ?case by (cases v) (simp_all add: dot_def)
qed

lemma col_zero_rows: "r < n \<Longrightarrow> col (replicate k (replicate n 0)) r = replicate k 0"
  by (simp add: col_def)

lemma transpose_times_zero_left:
  "r < n \<Longrightarrow> transpose_times (replicate k (replicate n 0)) B r c = 0"
  by (simp add: transpose_times_def col_zero_rows dot_zero_left)

lemma rankUpdate_zero: "rankUpdate info i n (replicate k (replicate n 0)) = info"
proof -
  have "(\<lambda>i' j' r c.
          if i' = i \<and> j' = i \<and> r \<le> c \<and> c < n
          then coeff info i' j' r c + transpose_times (replicate k (replicate n 0)) (replicate k (replicate n 0)) r c
          else coeff info i' j' r c) = coeff info"
    by (intro ext) (simp add: transpose_times_zero_left)
  then show ?thesis by (simp add: rankUpdate_def)
qed

lemma knownOffDiagonal_add_zero:
  "knownOffDiagonal_add info i j m n (transpose_times (replicate k (replicate m 0)) B) = info"
proof -
  have "(\<lambda>i' j' r c.
          if i' = i \<and> j' = j \<and> r < m \<and> c < n
          then coeff info i' j' r c + transpose_times (replicate k (replicate m 0)) B r c
          else coeff info i' j' r c) = coeff info"
    by (intro ext) (simp add: transpose_times_zero_left)
  then show ?thesis by (simp add: knownOffDiagonal_add_def)
qed

lemma Whiten_Zero: "dim_is m k \<Longrightarrow> Whiten m (Zero k n) = Zero k n"
proof (cases "isUnit m")
  case True
  then show ?thesis by (simp add: Whiten_def)
next
  case False
  assume "dim_is m k"
  with False have len: "length (scale_factors m) = k" by (cases m) simp_all
  have "map2 (\<lambda>w row. map ((*) w) row) (scale_factors m) (replicate k (replicate n 0)) =
        replicate k (replicate n (0::real))"
    by (rule nth_equalityI) (simp_all add: len)
  with False show ?thesis by (simp add: Whiten_def Zero_def)
qed

lemma whiten_zero_vec: "dim_is m k \<Longrightarrow> whiten m (zero_vec k) = zero_vec k"
proof (cases "isUnit m")
  case True
  then show ?thesis by (simp add: whiten_def)
next
  case False
  assume "dim_is m k"
  with False have len: "length (scale_factors m) = k" by (cases m) simp_all
  have "map2 (*) (scale_factors m) (replicate k 0) = replicate k (0::real)"
    by (rule nth_equalityI) (simp_all add: len)
  with False show ?thesis by (simp add: whiten_def zero_vec_def)
qed

lemma matrix_zero_factor:
  "matrix (Ab' (BinaryJacobianFactor DimC DimL k1 (Zero 2 DimC) k2 (Zero 2 DimL) (zero_vec 2) m)) =
   replicate 2 (replicate DimC 0 @ replicate DimL 0 @ [0])"
  by (simp add: BinaryJacobianFactor_def Zero_def zero_vec_def numeral_2_eq_2)

lemma Block_zero_factor:
  "Block 2 DimC (replicate 2 (replicate DimC 0 @ replicate DimL 0 @ [0::real])) 0 0 =
     replicate 2 (replicate DimC 0)"
  "Block 2 DimL (replicate 2 (replicate DimC 0 @ replicate DimL 0 @ [0::real])) 0 DimC =
     replicate 2 (replicate DimL 0)"
  "Block 2 1 (replicate 2 (replicate DimC 0 @ replicate DimL 0 @ [0::real])) 0 (DimC + DimL) =
     replicate 2 (replicate 1 0)"
  by (simp_all add: Block_def)

lemma updateHessian_zero_factor:
  "updateHessian DimC DimL
     (BinaryJacobianFactor DimC DimL k1 (Zero 2 DimC) k2 (Zero 2 DimL) (zero_vec 2) None)
     infoKeys info =
   (None, coeff_assign info (nBlocks info - 1) (nBlocks info - 1) 0 0 0)"
proof -
  have m: "model' (BinaryJacobianFactor DimC DimL k1 (Zero 2 DimC) k2 (Zero 2 DimL) (zero_vec 2) None) = None"
    by (simp add: BinaryJacobianFactor_def)
  have bb: "transpose_times (replicate 2 (replicate 1 0)) (replicate 2 (replicate 1 0)) 0 0 = 0"
    by (rule transpose_times_zero_left) simp
  show ?thesis
    unfolding updateHessian_def m matrix_zero_factor Block_zero_factor Let_def
    by (simp only: rankUpdate_zero knownOffDiagonal_add_zero bb simp_thms if_False)
qed

lemma block_zero_factor:
  assumes "pos < 2"
  shows "block (Ab' (BinaryJacobianFactor D D k1 (Zero 2 D) k2 (Zero 2 D) (zero_vec 2) m)) pos =
         replicate 2 (replicate D 0)"
proof -
  from assms have "pos = 0 \<or> pos = 1" by auto
  then show ?thesis
    by (auto simp: block_def BinaryJacobianFactor_def Zero_def zero_vec_def numeral_2_eq_2)
qed

lemma multiplyHessianAdd_zero_factor:
  "multiplyHessianAdd D (BinaryJacobianFactor D D k1 (Zero 2 D) k2 (Zero 2 D) (zero_vec 2) m)
     alpha x y = y"
proof (rule ext)
  fix i
  let ?f = "BinaryJacobianFactor D D k1 (Zero 2 D) k2 (Zero 2 D) (zero_vec 2) m"
  have k: "keys' ?f = [k1, k2]" by (simp add: BinaryJacobianFactor_def)
  have zt: "transpose_times_vec D (block (Ab' ?f) pos) s ! (i - D * keys' ?f ! pos) = 0"
    if "pos < length (keys' ?f) \<and> D * keys' ?f ! pos \<le> i \<and> i < D * keys' ?f ! pos + D"
    for pos s
  proof -
    from that have p: "pos < 2" and d: "i - D * keys' ?f ! pos < D" by (auto simp: k)
    show ?thesis
      using d by (simp add: transpose_times_vec_def block_zero_factor [OF p] col_zero_rows dot_zero_left)
  qed
  have "multiplyHessianAdd D ?f alpha x y i =
        y i + (\<Sum>pos | pos < length (keys' ?f) \<and> D * keys' ?f ! pos \<le> i \<and> i < D * keys' ?f ! pos + D.
          transpose_times_vec D (block (Ab' ?f) pos)
            (scale_vec alpha
               (case model' ?f of
                  None \<Rightarrow> multiplyHessianAdd_Ax D ?f x
                | Some m \<Rightarrow> whiten m (whiten m (multiplyHessianAdd_Ax D ?f x))))
          ! (i - D * keys' ?f ! pos))"
    by (simp add: multiplyHessianAdd_def empty_keys_def k Let_def size_keys_def fold_DMap_add
          del: upt_Suc)
  also have "\<dots> = y i + (\<Sum>pos | pos < length (keys' ?f) \<and> D * keys' ?f ! pos \<le> i \<and> i < D * keys' ?f ! pos + D. 0)"
    using zt by (intro arg_cong2 [where f = "(+)"] refl sum.cong) simp_all
  finally show "multiplyHessianAdd D ?f alpha x y i = y i" by simp
qed

lemma linearize_cheirality:
  assumes "active vals"
    and "vals (key1 factor) = Some (CameraValue camera)"
    and "vals (key2 factor) = Some (LandmarkValue point)"
    and "project2 camera point = None"
    and "case noiseModel factor of None \<Rightarrow> True | Some m \<Rightarrow> dim_is m 2"
  shows "linearize DimC DimL project2 active factor vals =
           Inr (Some (BinaryJacobianFactor DimC DimL (key1 factor) (Zero 2 DimC)
                        (key2 factor) (Zero 2 DimL) (zero_vec 2)
                        (case noiseModel factor of
                           Some (Constrained sigmas) \<Rightarrow> Some (unit sigmas)
                         | _ \<Rightarrow> None)))"
proof (cases "noiseModel factor")
  case None
  with assms(1-4) show ?thesis
    by (simp add: linearize_def at_CAMERA_def at_LANDMARK_def)
next
  case (Some m)
  with assms(5) have d: "dim_is m 2" by simp
  note z = Whiten_Zero [OF d] whiten_zero_vec [OF d]
  show ?thesis
    using assms(1-4) Some z
    by (cases m) (simp_all add: linearize_def at_CAMERA_def at_LANDMARK_def)
qed

text \<open>
  C4: a factor linearized at a cheirality failure is not neutral for \<open>updateHessian\<close> in
  every case.  With a constrained noise model the linearized factor carries the unit
  variant, which is constrained, and \<open>updateHessian\<close> throws.  Without noise model the
  call succeeds but stores 0 in the scalar block \<open>(s_B, s_B)\<close>, which held 5.
\<close>

theorem cheirality_factor_not_neutral:
  "linearize 1 1 (\<lambda>(c::unit) (l::unit). None) (\<lambda>v. True)
       \<lparr>measured = (0, 0), key1 = 0, key2 = 1, noiseModel = Some (Constrained [0, 1])\<rparr>
       (\<lambda>k. if k = 0 then Some (CameraValue ()) else Some (LandmarkValue ())) =
     Inr (Some (BinaryJacobianFactor 1 1 0 [[0], [0]] 1 [[0], [0]] [0, 0] (Some (Constrained [0, 1])))) \<and>
   updateHessian 1 1
       (BinaryJacobianFactor 1 1 0 [[0], [0]] 1 [[0], [0]] [0, 0] (Some (Constrained [0, 1])))
       [0, 1] \<lparr>nBlocks = 3, coeff = (\<lambda>i j r c. 5)\<rparr> =
     (Some (invalid_argument ''BinaryJacobianFactor::updateHessian: cannot update information with constrained noise model''),
      \<lparr>nBlocks = 3, coeff = (\<lambda>i j r c. 5)\<rparr>) \<and>
   linearize 1 1 (\<lambda>(c::unit) (l::unit). None) (\<lambda>v. True)
       \<lparr>measured = (0, 0), key1 = 0, key2 = 1, noiseModel = None\<rparr>
       (\<lambda>k. if k = 0 then Some (CameraValue ()) else Some (LandmarkValue ())) =
     Inr (Some (BinaryJacobianFactor 1 1 0 [[0], [0]] 1 [[0], [0]] [0, 0] None)) \<and>
   coeff (snd (updateHessian 1 1
       (BinaryJacobianFactor 1 1 0 [[0], [0]] 1 [[0], [0]] [0, 0] None)
       [0, 1] \<lparr>nBlocks = 3, coeff = (\<lambda>i j r c. 5)\<rparr>)) 2 2 0 0 = 0"
proof -
  have a: "linearize 1 1 (\<lambda>(c::unit) (l::unit). None) (\<lambda>v. True)
       \<lparr>measured = (0, 0), key1 = 0, key2 = 1, noiseModel = Some (Constrained [0, 1])\<rparr>
       (\<lambda>k. if k = 0 then Some (CameraValue ()) else Some (LandmarkValue ())) =
     Inr (Some (BinaryJacobianFactor 1 1 0 [[0], [0]] 1 [[0], [0]] [0, 0] (Some (Constrained [0, 1]))))"
    by (simp add: linearize_def at_CAMERA_def at_LANDMARK_def Whiten_def whiten_def unit_def
          Zero_def zero_vec_def numeral_2_eq_2)
  have b: "updateHessian 1 1
       (BinaryJacobianFactor 1 1 0 [[0], [0]] 1 [[0], [0]] [0, 0] (Some (Constrained [0, 1])))
       [0, 1] \<lparr>nBlocks = 3, coeff = (\<lambda>i j r c. 5)\<rparr> =
     (Some (invalid_argument ''BinaryJacobianFactor::updateHessian: cannot update information with constrained noise model''),
      \<lparr>nBlocks = 3, coeff = (\<lambda>i j r c. 5)\<rparr>)"
    by (simp add: updateHessian_def BinaryJacobianFactor_def)
  have c: "linearize 1 1 (\<lambda>(c::unit) (l::unit). None) (\<lambda>v. True)
       \<lparr>measured = (0, 0), key1 = 0, key2 = 1, noiseModel = None\<rparr>
       (\<lambda>k. if k = 0 then Some (CameraValue ()) else Some (LandmarkValue ())) =
     Inr (Some (BinaryJacobianFactor 1 1 0 [[0], [0]] 1 [[0], [0]] [0, 0] None))"
    by (simp add: linearize_def at_CAMERA_def at_LANDMARK_def Zero_def zero_vec_def numeral_2_eq_2)
  have d: "coeff (snd (updateHessian 1 1
       (BinaryJacobianFactor 1 1 0 [[0], [0]] 1 [[0], [0]] [0, 0] None)
       [0, 1] \<lparr>nBlocks = 3, coeff = (\<lambda>i j r c. 5)\<rparr>)) 2 2 0 0 = 0"
    by (simp add: updateHessian_def BinaryJacobianFactor_def Let_def coeff_assign_def
          transpose_times_def Block_def dot_def col_def)
  from a b c d show ?thesis by (intro conjI)
qed

text \<open>
  C4 (amended): at a cheirality failure \<open>evaluateError\<close> returns the zero residual and
  zero Jacobians, and \<open>linearize\<close> returns the factor with zero blocks and zero residual
  (for a noise model of dimension 2); the factor carries the unit variant of a
  constrained noise model and no noise model otherwise.  When the noise model is not
  constrained, \<open>updateHessian\<close> on that factor throws nothing and changes no entry of
  the accumulator other than the scalar entry of block \<open>(s_B, s_B)\<close>; when it is
  constrained, \<open>updateHessian\<close> throws \<open>invalid_argument\<close> and leaves the accumulator
  as it was.
  The raw-memory \<open>multiplyHessianAdd\<close> leaves \<open>y\<close> as it was.
\<close>

theorem cheirality_soft_drop:
  assumes "project2 camera point = None"
    and "active vals"
    and "vals (key1 factor) = Some (CameraValue camera)"
    and "vals (key2 factor) = Some (LandmarkValue point)"
    and "case noiseModel factor of None \<Rightarrow> True | Some m \<Rightarrow> dim_is m 2"
  shows "evaluateError DimC DimL project2 factor camera point H1 H2 =
           (zero_vec 2, if H1 then Some (Zero 2 DimC) else None,
                        if H2 then Some (Zero 2 DimL) else None) \<and>
         (\<exists>f. linearize DimC DimL project2 active factor vals = Inr (Some f) \<and>
            f = BinaryJacobianFactor DimC DimL (key1 factor) (Zero 2 DimC)
                  (key2 factor) (Zero 2 DimL) (zero_vec 2)
                  (case noiseModel factor of
                     Some (Constrained sigmas) \<Rightarrow> Some (unit sigmas)
                   | _ \<Rightarrow> None) \<and>
            ((case noiseModel factor of None \<Rightarrow> True | Some m \<Rightarrow> \<not> isConstrained m) \<longrightarrow>
               fst (updateHessian DimC DimL f infoKeys info) = None \<and>
               nBlocks (snd (updateHessian DimC DimL f infoKeys info)) = nBlocks info \<and>
               (\<forall>i j r c. (i, j, r, c) \<noteq> (nBlocks info - 1, nBlocks info - 1, 0, 0) \<longrightarrow>
                  coeff (snd (updateHessian DimC DimL f infoKeys info)) i j r c =
                    coeff info i j r c)) \<and>
            ((case noiseModel factor of None \<Rightarrow> False | Some m \<Rightarrow> isConstrained m) \<longrightarrow>
               updateHessian DimC DimL f infoKeys info =
                 (Some (invalid_argument ''BinaryJacobianFactor::updateHessian: cannot update information with constrained noise model''),
                  info)) \<and>
            (DimC = DimL \<longrightarrow> multiplyHessianAdd DimC f alpha x y = y))"
proof -
  let ?m = "case noiseModel factor of Some (Constrained sigmas) \<Rightarrow> Some (unit sigmas) | _ \<Rightarrow> None"
  let ?f = "BinaryJacobianFactor DimC DimL (key1 factor) (Zero 2 DimC)
              (key2 factor) (Zero 2 DimL) (zero_vec 2) ?m"
  have ev: "evaluateError DimC DimL project2 factor camera point H1 H2 =
           (zero_vec 2, if H1 then Some (Zero 2 DimC) else None,
                        if H2 then Some (Zero 2 DimL) else None)"
    using assms(1) by (simp add: evaluateError_def)
  have lin: "linearize DimC DimL project2 active factor vals = Inr (Some ?f)"
    by (rule linearize_cheirality [of active vals factor camera point project2,
          OF assms(2) assms(3) assms(4) assms(1) assms(5)])
  have upd: "fst (updateHessian DimC DimL ?f infoKeys info) = None \<and>
             nBlocks (snd (updateHessian DimC DimL ?f infoKeys info)) = nBlocks info \<and>
             (\<forall>i j r c. (i, j, r, c) \<noteq> (nBlocks info - 1, nBlocks info - 1, 0, 0) \<longrightarrow>
                coeff (snd (updateHessian DimC DimL ?f infoKeys info)) i j r c = coeff info i j r c)"
    if nc: "case noiseModel factor of None \<Rightarrow> True | Some m \<Rightarrow> \<not> isConstrained m"
  proof -
    have "?m = None"
      using nc by (auto split: option.splits NoiseModel.splits)
    then show ?thesis
      by (simp add: updateHessian_zero_factor coeff_assign_def)
  qed
  have rej: "updateHessian DimC DimL ?f infoKeys info =
               (Some (invalid_argument ''BinaryJacobianFactor::updateHessian: cannot update information with constrained noise model''),
                info)"
    if c: "case noiseModel factor of None \<Rightarrow> False | Some m \<Rightarrow> isConstrained m"
  proof -
    from c obtain sigmas where "noiseModel factor = Some (Constrained sigmas)"
      by (auto split: option.splits elim: isConstrained.elims)
    then show ?thesis
      by (simp add: updateHessian_def BinaryJacobianFactor_def unit_def)
  qed
  have mha: "multiplyHessianAdd DimC ?f alpha x y = y" if "DimC = DimL"
    using multiplyHessianAdd_zero_factor [of DimC "key1 factor" "key2 factor" ?m alpha x y] that
    by simp
  show ?thesis
    using ev lin upd rej mha by blast
qed

theorem cheirality_soft_drop_witness:
  "linearize 1 1 (\<lambda>(c::unit) (l::unit). None) (\<lambda>v. True)
       \<lparr>measured = (0, 0), key1 = 0, key2 = 1, noiseModel = Some (Diagonal [2, 4])\<rparr>
       (\<lambda>k. if k = 0 then Some (CameraValue ()) else Some (LandmarkValue ())) =
     Inr (Some (BinaryJacobianFactor 1 1 0 [[0], [0]] 1 [[0], [0]] [0, 0] None)) \<and>
   coeff (snd (updateHessian 1 1 (BinaryJacobianFactor 1 1 0 [[0], [0]] 1 [[0], [0]] [0, 0] None)
      [0, 1] \<lparr>nBlocks = 3, coeff = (\<lambda>i j r c. 5)\<rparr>)) 0 1 0 0 = 5 \<and>
   multiplyHessianAdd 1 (BinaryJacobianFactor 1 1 0 [[0], [0]] 1 [[0], [0]] [0, 0] None)
      1 (\<lambda>i. 1) (\<lambda>i. 7) = (\<lambda>i. 7)"
proof -
  let ?F = "\<lparr>measured = (0, 0), key1 = 0, key2 = 1, noiseModel = Some (Diagonal [2, 4])\<rparr>"
  let ?V = "\<lambda>k::nat. if k = 0 then Some (CameraValue ()) else Some (LandmarkValue ())"
  let ?I = "\<lparr>nBlocks = 3, coeff = (\<lambda>i j r c. 5::real)\<rparr>"
  let ?G = "BinaryJacobianFactor 1 1 0 [[0], [0]] 1 [[0], [0]] [0, 0] None"
  have h1: "(\<lambda>(c::unit) (l::unit). None :: (Point2 \<times> Matrix \<times> Matrix) option) () () = None" by simp
  have h2: "(\<lambda>v::(unit, unit) Values. True) ?V" by simp
  have h3: "?V (key1 ?F) = Some (CameraValue ())" by simp
  have h4: "?V (key2 ?F) = Some (LandmarkValue ())" by simp
  have h5: "case noiseModel ?F of None \<Rightarrow> True | Some m \<Rightarrow> dim_is m 2" by simp
  have nc: "case noiseModel ?F of None \<Rightarrow> True | Some m \<Rightarrow> \<not> isConstrained m" by simp
  from cheirality_soft_drop [OF h1 h2 h3 h4 h5, of 1 1 False False "[0, 1]" ?I 1 "\<lambda>i. 1" "\<lambda>i. 7"]
  obtain f where f: "linearize 1 1 (\<lambda>(c::unit) (l::unit). None) (\<lambda>v. True) ?F ?V = Inr (Some f)"
      "f = BinaryJacobianFactor 1 1 (key1 ?F) (Zero 2 1) (key2 ?F) (Zero 2 1) (zero_vec 2)
             (case noiseModel ?F of Some (Constrained sigmas) \<Rightarrow> Some (unit sigmas) | _ \<Rightarrow> None)"
      "\<forall>i j r c. (i, j, r, c) \<noteq> (nBlocks ?I - 1, nBlocks ?I - 1, 0, 0) \<longrightarrow>
                  coeff (snd (updateHessian 1 1 f [0, 1] ?I)) i j r c = coeff ?I i j r c"
      "multiplyHessianAdd 1 f 1 (\<lambda>i. 1) (\<lambda>i. 7) = (\<lambda>i. 7)"
    using nc by blast
  have l: "linearize 1 1 (\<lambda>(c::unit) (l::unit). None) (\<lambda>v. True) ?F ?V = Inr (Some ?G)"
    by (simp add: linearize_def at_CAMERA_def at_LANDMARK_def Whiten_def whiten_def
          Zero_def zero_vec_def numeral_2_eq_2)
  with f(1) have fg: "f = ?G" by simp
  from f(3) have "coeff (snd (updateHessian 1 1 f [0, 1] ?I)) 0 1 0 0 = coeff ?I 0 1 0 0"
    by simp
  then have u: "coeff (snd (updateHessian 1 1 ?G [0, 1] ?I)) 0 1 0 0 = 5"
    unfolding fg by simp
  from l u f(4) [unfolded fg] show ?thesis by (intro conjI)
qed

subsection \<open>The matrix-free product against the assembled information matrix\<close>
































end
